theory Spec2Isabelle
  imports Main "HOL-Library.List_Lexorder"
begin

section \<open>Filter presets: the list and create handlers of \<open>api/admin/filter-presets/route.ts\<close>\<close>

text \<open>
  The two handlers \<open>GET\<close> and \<open>POST\<close> are embedded as functions from the caller context,
  the request and the store to a response and the store afterwards. The store keeps a log
  of the queries sent to it, so that "no storage read or write" is a statement about the log.
\<close>

subsection \<open>JavaScript values that arrive as JSON\<close>

text \<open>
  A number that \<open>request.json()\<close> can return: a finite number, negative zero, or an infinity,
  which is what a literal beyond the range of the numbers reads as (\<open>1e400\<close>). Finite numbers
  are modelled as integers (the safe integers of JavaScript, printed as plain decimal digits).
\<close>

datatype number = Finite int | NegZero | PosInfinity | NegInfinity

fun is_finite :: "number \<Rightarrow> bool" where
  "is_finite (Finite i) = True"
| "is_finite NegZero = True"
| "is_finite PosInfinity = False"
| "is_finite NegInfinity = False"

text \<open>
  A request body is what \<open>request.json()\<close> returns (a body that is no JSON text is not a
  value of the model): null, a boolean, a number, a string, an
  array or an object whose properties are kept in property order. A character is
  a code unit below 256. \<open>undefined\<close> is \<open>None\<close> of \<open>json option\<close>.
\<close>

datatype json =
    JNull
  | JBool bool
  | JNum number
  | JStr string
  | JArr "json list"
  | JObj "(string \<times> json) list"

text \<open>Truthiness of a value (\<open>!x\<close> is its negation): undefined, null, false, 0, -0 and "" are
  falsy.\<close>

fun truthy :: "json option \<Rightarrow> bool" where
  "truthy None = False"
| "truthy (Some JNull) = False"
| "truthy (Some (JBool b)) = b"
| "truthy (Some (JNum n)) = (n \<noteq> Finite 0 \<and> n \<noteq> NegZero)"
| "truthy (Some (JStr s)) = (s \<noteq> [])"
| "truthy (Some (JArr vs)) = True"
| "truthy (Some (JObj kvs)) = True"

text \<open>Property access \<open>v.k\<close> for the property names used here: only an object has them.\<close>

fun get_prop :: "json \<Rightarrow> string \<Rightarrow> json option" where
  "get_prop (JObj kvs) k = map_of kvs k"
| "get_prop v k = None"

text \<open>Every object of a value has pairwise distinct property names.\<close>

fun distinct_keys :: "json \<Rightarrow> bool" where
  "distinct_keys (JArr vs) = (\<forall>v \<in> set vs. distinct_keys v)"
| "distinct_keys (JObj kvs) = (distinct (map fst kvs) \<and> (\<forall>kv \<in> set kvs. distinct_keys (snd kv)))"
| "distinct_keys v = True"

subsection \<open>\<open>JSON.stringify\<close>\<close>

fun nat_digits :: "nat \<Rightarrow> string" where
  "nat_digits n =
     (if n < 10 then [char_of (48 + n)] else nat_digits (n div 10) @ [char_of (48 + n mod 10)])"

text \<open>\<open>Number::toString\<close>: negative zero prints as \<open>0\<close>.\<close>

fun number_to_string :: "number \<Rightarrow> string" where
  "number_to_string (Finite i) = (if i < 0 then CHR ''-'' # nat_digits (nat (- i)) else nat_digits (nat i))"
| "number_to_string NegZero = ''0''"
| "number_to_string PosInfinity = ''Infinity''"
| "number_to_string NegInfinity = ''-Infinity''"

definition hex_digit :: "nat \<Rightarrow> char" where
  "hex_digit n = (if n < 10 then char_of (48 + n) else char_of (87 + n))"

definition escape_char :: "char \<Rightarrow> string" where
  "escape_char c =
     (if c = CHR 0x22 then [CHR 0x5C, CHR 0x22]
      else if c = CHR 0x5C then [CHR 0x5C, CHR 0x5C]
      else if c = CHR 0x08 then [CHR 0x5C, CHR ''b'']
      else if c = CHR 0x0C then [CHR 0x5C, CHR ''f'']
      else if c = CHR 0x0A then [CHR 0x5C, CHR ''n'']
      else if c = CHR 0x0D then [CHR 0x5C, CHR ''r'']
      else if c = CHR 0x09 then [CHR 0x5C, CHR ''t'']
      else if (of_char c :: nat) < 32
        then [CHR 0x5C, CHR ''u'', CHR ''0'', CHR ''0'',
              hex_digit (of_char c div 16), hex_digit (of_char c mod 16)]
      else [c])"

definition quote :: "string \<Rightarrow> string" where
  "quote s = CHR 0x22 # concat (map escape_char s) @ [CHR 0x22]"

fun join_comma :: "string list \<Rightarrow> string" where
  "join_comma [] = []"
| "join_comma [x] = x"
| "join_comma (x # y # zs) = x @ CHR '','' # join_comma (y # zs)"

text \<open>A number that is not finite is serialised as \<open>null\<close>.\<close>

primrec JSON_stringify :: "json \<Rightarrow> string" where
  "JSON_stringify JNull = ''null''"
| "JSON_stringify (JBool b) = (if b then ''true'' else ''false'')"
| "JSON_stringify (JNum n) = (if is_finite n then number_to_string n else ''null'')"
| "JSON_stringify (JStr s) = quote s"
| "JSON_stringify (JArr vs) = CHR ''['' # join_comma (map JSON_stringify vs) @ [CHR '']'']"
| "JSON_stringify (JObj kvs) =
     CHR ''{'' # join_comma (map (\<lambda>(k, t). quote k @ CHR '':'' # t)
                               (map (map_prod id JSON_stringify) kvs)) @ [CHR ''}'']"

subsection \<open>\<open>JSON.parse\<close>\<close>

definition is_ws :: "char \<Rightarrow> bool" where
  "is_ws c = (c = CHR 0x20 \<or> c = CHR 0x09 \<or> c = CHR 0x0A \<or> c = CHR 0x0D)"

definition skip_ws :: "string \<Rightarrow> string" where
  "skip_ws s = dropWhile is_ws s"

definition is_digit :: "char \<Rightarrow> bool" where
  "is_digit c = (48 \<le> (of_char c :: nat) \<and> (of_char c :: nat) \<le> 57)"

definition digits_value :: "string \<Rightarrow> nat" where
  "digits_value ds = foldl (\<lambda>a d. 10 * a + (of_char d - 48)) 0 ds"

definition hex_value :: "char \<Rightarrow> nat option" where
  "hex_value c =
     (let n = (of_char c :: nat) in
      if 48 \<le> n \<and> n \<le> 57 then Some (n - 48)
      else if 97 \<le> n \<and> n \<le> 102 then Some (n - 87)
      else if 65 \<le> n \<and> n \<le> 70 then Some (n - 55)
      else None)"

definition hex4 :: "char \<Rightarrow> char \<Rightarrow> char \<Rightarrow> char \<Rightarrow> nat option" where
  "hex4 a b c d =
     (case (hex_value a, hex_value b, hex_value c, hex_value d) of
        (Some w, Some x, Some y, Some z) \<Rightarrow> Some (((w * 16 + x) * 16 + y) * 16 + z)
      | _ \<Rightarrow> None)"

definition unescape :: "char \<Rightarrow> char option" where
  "unescape e =
     (if e = CHR 0x22 then Some (CHR 0x22)
      else if e = CHR 0x5C then Some (CHR 0x5C)
      else if e = CHR ''/'' then Some (CHR ''/'')
      else if e = CHR ''b'' then Some (CHR 0x08)
      else if e = CHR ''f'' then Some (CHR 0x0C)
      else if e = CHR ''n'' then Some (CHR 0x0A)
      else if e = CHR ''r'' then Some (CHR 0x0D)
      else if e = CHR ''t'' then Some (CHR 0x09)
      else None)"

definition prepend :: "char \<Rightarrow> (string \<times> string) option \<Rightarrow> (string \<times> string) option" where
  "prepend c res = (case res of None \<Rightarrow> None | Some (s, r) \<Rightarrow> Some (c # s, r))"

text \<open>The characters of a string literal after its opening quote, up to the closing quote.
  An escape \<open>\uXXXX\<close> of a code unit from 256 on is outside the characters modelled.\<close>

fun parse_chars :: "string \<Rightarrow> (string \<times> string) option" where
  "parse_chars [] = None"
| "parse_chars (c # cs) =
     (if c = CHR 0x22 then Some ([], cs)
      else if c = CHR 0x5C then
        (case cs of
           [] \<Rightarrow> None
         | e # cs' \<Rightarrow>
             if e = CHR ''u'' then
               (case cs' of
                  h1 # h2 # h3 # h4 # cs'' \<Rightarrow>
                    (case hex4 h1 h2 h3 h4 of
                       None \<Rightarrow> None
                     | Some n \<Rightarrow> if n < 256 then prepend (char_of n) (parse_chars cs'') else None)
                | _ \<Rightarrow> None)
             else
               (case unescape e of
                  None \<Rightarrow> None
                | Some ch \<Rightarrow> prepend ch (parse_chars cs')))
      else if (of_char c :: nat) < 32 then None
      else prepend c (parse_chars cs))"

text \<open>A number literal: an optional minus sign and digits without a leading zero; \<open>-0\<close> reads as
  negative zero. A fraction or an exponent is outside the integers modelled.\<close>

definition parse_number :: "string \<Rightarrow> (json \<times> string) option" where
  "parse_number s =
     (let neg = (s \<noteq> [] \<and> hd s = CHR ''-'');
          s1 = (if neg then tl s else s);
          ds = takeWhile is_digit s1;
          rest = dropWhile is_digit s1
      in if ds = [] then None
         else if hd ds = CHR ''0'' \<and> 1 < length ds then None
         else if rest \<noteq> [] \<and> (hd rest = CHR ''.'' \<or> hd rest = CHR ''e'' \<or> hd rest = CHR ''E'') then None
         else Some (JNum (if neg then (if digits_value ds = 0 then NegZero else Finite (- int (digits_value ds)))
                          else Finite (int (digits_value ds))), rest))"

definition strip_prefix :: "string \<Rightarrow> string \<Rightarrow> string option" where
  "strip_prefix p s = (if take (length p) s = p then Some (drop (length p) s) else None)"

text \<open>A property that occurs twice keeps its first position and takes the later value.\<close>

definition upsert :: "(string \<times> json) list \<Rightarrow> string \<times> json \<Rightarrow> (string \<times> json) list" where
  "upsert kvs kv =
     (if fst kv \<in> set (map fst kvs)
      then map (\<lambda>p. if fst p = fst kv then kv else p) kvs
      else kvs @ [kv])"

text \<open>
  The recursive descent. The first argument bounds the calls still to be made: a call hands
  on one less. \<open>JSON_parse\<close> starts with a bound above the length of the text, which is never
  what makes it fail: the result at one bound is the result at every greater one
  (\<open>JSON_parse_bound\<close> below).
\<close>

fun parse_value :: "nat \<Rightarrow> string \<Rightarrow> (json \<times> string) option"
  and parse_elements :: "nat \<Rightarrow> string \<Rightarrow> (json list \<times> string) option"
  and parse_members :: "nat \<Rightarrow> string \<Rightarrow> ((string \<times> json) list \<times> string) option"
where
  "parse_value 0 s = None"
| "parse_value (Suc n) s =
     (case skip_ws s of
        [] \<Rightarrow> None
      | c # cs \<Rightarrow>
          if c = CHR ''['' then
            (case skip_ws cs of
               [] \<Rightarrow> None
             | d # ds \<Rightarrow>
                 if d = CHR '']'' then Some (JArr [], ds)
                 else (case parse_elements n cs of
                         None \<Rightarrow> None
                       | Some (vs, r) \<Rightarrow> Some (JArr vs, r)))
          else if c = CHR ''{'' then
            (case skip_ws cs of
               [] \<Rightarrow> None
             | d # ds \<Rightarrow>
                 if d = CHR ''}'' then Some (JObj [], ds)
                 else (case parse_members n cs of
                         None \<Rightarrow> None
                       | Some (kvs, r) \<Rightarrow> Some (JObj (foldl upsert [] kvs), r)))
          else if c = CHR 0x22 then
            (case parse_chars cs of None \<Rightarrow> None | Some (str, r) \<Rightarrow> Some (JStr str, r))
          else if c = CHR ''n'' then
            (case strip_prefix ''null'' (c # cs) of None \<Rightarrow> None | Some r \<Rightarrow> Some (JNull, r))
          else if c = CHR ''t'' then
            (case strip_prefix ''true'' (c # cs) of None \<Rightarrow> None | Some r \<Rightarrow> Some (JBool True, r))
          else if c = CHR ''f'' then
            (case strip_prefix ''false'' (c # cs) of None \<Rightarrow> None | Some r \<Rightarrow> Some (JBool False, r))
          else parse_number (c # cs))"
| "parse_elements 0 s = None"
| "parse_elements (Suc n) s =
     (case parse_value n s of
        None \<Rightarrow> None
      | Some (v, r) \<Rightarrow>
          (case skip_ws r of
             [] \<Rightarrow> None
           | c # cs \<Rightarrow>
               if c = CHR '','' then
                 (case parse_elements n cs of
                    None \<Rightarrow> None
                  | Some (vs, r') \<Rightarrow> Some (v # vs, r'))
               else if c = CHR '']'' then Some ([v], cs)
               else None))"
| "parse_members 0 s = None"
| "parse_members (Suc n) s =
     (case skip_ws s of
        [] \<Rightarrow> None
      | q # cs \<Rightarrow>
          if q \<noteq> CHR 0x22 then None
          else
            (case parse_chars cs of
               None \<Rightarrow> None
             | Some (k, r) \<Rightarrow>
                 (case skip_ws r of
                    [] \<Rightarrow> None
                  | c # cs' \<Rightarrow>
                      if c \<noteq> CHR '':'' then None
                      else
                        (case parse_value n cs' of
                           None \<Rightarrow> None
                         | Some (v, r') \<Rightarrow>
                             (case skip_ws r' of
                                [] \<Rightarrow> None
                              | d # ds \<Rightarrow>
                                  if d = CHR '','' then
                                    (case parse_members n ds of
                                       None \<Rightarrow> None
                                     | Some (kvs, r'') \<Rightarrow> Some ((k, v) # kvs, r''))
                                  else if d = CHR ''}'' then Some ([(k, v)], ds)
                                  else None)))))"

text \<open>\<open>JSON.parse\<close>: one value between optional white space; \<open>None\<close> is the SyntaxError.\<close>

definition JSON_parse :: "string \<Rightarrow> json option" where
  "JSON_parse s =
     (case parse_value (Suc (length s)) s of
        None \<Rightarrow> None
      | Some (v, r) \<Rightarrow> if skip_ws r = [] then Some v else None)"

subsection \<open>The caller context\<close>

text \<open>
  Modelled from the spec: the tenant and identity context provider (\<open>withTenantContext\<close>,
  \<open>requireTenantContext\<close> of \<open>@/lib\<close>) is not part of the source. It "supplies \<open>tenantId\<close> and
  \<open>userId\<close> for the current request"; the context it returns is an argument of the handlers,
  \<open>None\<close> when there is none.
\<close>

record tenant_context =
  ctx_userId :: "string option"
  ctx_tenantId :: "string option"

text \<open>
  The guard \<open>!ctx?.userId || !ctx?.tenantId\<close> of both handlers: an identity is absent when
  the context, the field or its text is missing. \<open>None\<close> is the unauthorized case.
\<close>

definition caller_identity :: "tenant_context option \<Rightarrow> (string \<times> string) option" where
  "caller_identity ctx =
     (case ctx of
        None \<Rightarrow> None
      | Some c \<Rightarrow>
          (case ctx_userId c of
             None \<Rightarrow> None
           | Some uid \<Rightarrow>
               (case ctx_tenantId c of
                  None \<Rightarrow> None
                | Some tid \<Rightarrow> if uid = [] \<or> tid = [] then None else Some (uid, tid))))"

subsection \<open>The store\<close>

record user =
  user_id :: string
  user_name :: "string option"
  user_image :: "string option"

record filter_preset =
  id' :: string
  tenantId :: string
  name :: string
  description :: "string option"
  entityType :: string
  filterConfig :: json
  filterLogic :: string
  isPublic :: bool
  isDefault :: bool
  icon :: "string option"
  color :: "string option"
  usageCount :: int
  lastUsedAt :: "int option"
  createdBy :: string
  createdAt :: int
  updatedAt :: int

text \<open>A row read back with \<open>include: { creator }\<close>.\<close>

record preset_with_creator = filter_preset +
  creator :: "user option"

text \<open>A row as the \<open>select\<close> of the list query shapes it: without tenant and owner id.\<close>

record preset_listing =
  sel_id :: string
  sel_name :: string
  sel_description :: "string option"
  sel_entityType :: string
  sel_filterConfig :: json
  sel_filterLogic :: string
  sel_isPublic :: bool
  sel_isDefault :: bool
  sel_icon :: "string option"
  sel_color :: "string option"
  sel_usageCount :: int
  sel_lastUsedAt :: "int option"
  sel_createdAt :: int
  sel_updatedAt :: int
  sel_creator :: "user option"

datatype column = TenantId | EntityType | IsPublic | CreatedBy | Name

text \<open>A \<open>where\<close> object is the conjunction of its entries; \<open>OR\<close> holds a list of \<open>where\<close> objects.\<close>

datatype cond = Eq column json | Or "cond list list"

datatype sort_column = IsDefault | UsageCount | CreatedAt

datatype direction = asc | desc

record create_data =
  data_tenantId :: json
  data_name :: json
  data_description :: json
  data_entityType :: json
  data_filterConfig :: json
  data_filterLogic :: json
  data_isPublic :: json
  data_icon :: json
  data_color :: json
  data_createdBy :: json

datatype query =
    FindMany "cond list" "(sort_column \<times> direction) list"
  | FindFirst "cond list"
  | Create create_data

record store =
  filter_presets :: "filter_preset list"
  users :: "user list"
  queries :: "query list"

text \<open>
  Modelled from the spec: the ORM client \<open>prisma\<close> (\<open>@/lib/prisma\<close>) is not part of the source.
  It is the "persistent relational store" that "supports filtered queries with multi-field
  sort, existence checks, and single-row inserts with a read-back of a related creator
  entity". The table is a list of rows in insertion order. A value of the wrong type for its
  column makes the client throw before any query is sent (\<open>None\<close>); a nested filter object in
  the place of a value is not modelled. Rows that tie on every sort key keep their table
  order. The id and the timestamps of a new row come from the store and are arguments here;
  \<open>isDefault\<close>, \<open>usageCount\<close> and \<open>lastUsedAt\<close> take their defaults.
\<close>

fun column_value :: "column \<Rightarrow> filter_preset \<Rightarrow> json" where
  "column_value TenantId p = JStr (tenantId p)"
| "column_value EntityType p = JStr (entityType p)"
| "column_value IsPublic p = JBool (isPublic p)"
| "column_value CreatedBy p = JStr (createdBy p)"
| "column_value Name p = JStr (name p)"

fun is_string :: "json \<Rightarrow> bool" where
  "is_string (JStr s) = True"
| "is_string v = False"

fun is_string_or_null :: "json \<Rightarrow> bool" where
  "is_string_or_null (JStr s) = True"
| "is_string_or_null JNull = True"
| "is_string_or_null v = False"

fun is_boolean :: "json \<Rightarrow> bool" where
  "is_boolean (JBool b) = True"
| "is_boolean v = False"

fun string_of :: "json \<Rightarrow> string" where
  "string_of (JStr s) = s"
| "string_of v = []"

fun string_option_of :: "json \<Rightarrow> string option" where
  "string_option_of (JStr s) = Some s"
| "string_option_of v = None"

fun bool_of :: "json \<Rightarrow> bool" where
  "bool_of (JBool b) = b"
| "bool_of v = False"

fun holds :: "cond \<Rightarrow> filter_preset \<Rightarrow> bool" where
  "holds (Eq c v) p = (column_value c p = v)"
| "holds (Or ws) p = (\<exists>w \<in> set ws. \<forall>c \<in> set w. holds c p)"

definition matches :: "cond list \<Rightarrow> filter_preset \<Rightarrow> bool" where
  "matches w p = (\<forall>c \<in> set w. holds c p)"

fun valid_cond :: "cond \<Rightarrow> bool" where
  "valid_cond (Eq c v) = (if c = IsPublic then is_boolean v else is_string v)"
| "valid_cond (Or ws) = (\<forall>w \<in> set ws. \<forall>c \<in> set w. valid_cond c)"

definition valid_where :: "cond list \<Rightarrow> bool" where
  "valid_where w = (\<forall>c \<in> set w. valid_cond c)"

definition valid_data :: "create_data \<Rightarrow> bool" where
  "valid_data d =
     (is_string (data_tenantId d) \<and> is_string (data_name d)
      \<and> is_string_or_null (data_description d) \<and> is_string (data_entityType d)
      \<and> is_string (data_filterConfig d) \<and> is_string (data_filterLogic d)
      \<and> is_boolean (data_isPublic d) \<and> is_string_or_null (data_icon d)
      \<and> is_string_or_null (data_color d) \<and> is_string (data_createdBy d))"

fun sort_value :: "sort_column \<Rightarrow> filter_preset \<Rightarrow> int" where
  "sort_value IsDefault p = (if isDefault p then 1 else 0)"
| "sort_value UsageCount p = usageCount p"
| "sort_value CreatedAt p = createdAt p"

fun directed :: "direction \<Rightarrow> int \<Rightarrow> int" where
  "directed asc x = x"
| "directed desc x = - x"

text \<open>The sort key of a row: one entry per \<open>orderBy\<close> entry, compared lexicographically.\<close>

definition order_key :: "(sort_column \<times> direction) list \<Rightarrow> filter_preset \<Rightarrow> int list" where
  "order_key ob p = map (\<lambda>(c, d). directed d (sort_value c p)) ob"

definition find_creator :: "store \<Rightarrow> string \<Rightarrow> user option" where
  "find_creator st uid = find (\<lambda>u. user_id u = uid) (users st)"

definition select_listing :: "store \<Rightarrow> filter_preset \<Rightarrow> preset_listing" where
  "select_listing st p =
     \<lparr> sel_id = id' p, sel_name = name p, sel_description = description p,
       sel_entityType = entityType p, sel_filterConfig = filterConfig p,
       sel_filterLogic = filterLogic p, sel_isPublic = isPublic p,
       sel_isDefault = isDefault p, sel_icon = icon p, sel_color = color p,
       sel_usageCount = usageCount p, sel_lastUsedAt = lastUsedAt p,
       sel_createdAt = createdAt p, sel_updatedAt = updatedAt p,
       sel_creator = find_creator st (createdBy p) \<rparr>"

definition prisma_findMany ::
  "store \<Rightarrow> cond list \<Rightarrow> (sort_column \<times> direction) list \<Rightarrow> (filter_preset list \<times> store) option" where
  "prisma_findMany st w ob =
     (if \<not> valid_where w then None
      else Some (sort_key (order_key ob) (filter (matches w) (filter_presets st)),
                 st\<lparr>queries := queries st @ [FindMany w ob]\<rparr>))"

definition prisma_findFirst :: "store \<Rightarrow> cond list \<Rightarrow> (filter_preset option \<times> store) option" where
  "prisma_findFirst st w =
     (if \<not> valid_where w then None
      else Some (find (matches w) (filter_presets st),
                 st\<lparr>queries := queries st @ [FindFirst w]\<rparr>))"

definition new_row :: "create_data \<Rightarrow> string \<Rightarrow> int \<Rightarrow> filter_preset" where
  "new_row d new_id now =
     \<lparr> id' = new_id, tenantId = string_of (data_tenantId d), name = string_of (data_name d),
       description = string_option_of (data_description d),
       entityType = string_of (data_entityType d), filterConfig = data_filterConfig d,
       filterLogic = string_of (data_filterLogic d), isPublic = bool_of (data_isPublic d),
       isDefault = False, icon = string_option_of (data_icon d),
       color = string_option_of (data_color d), usageCount = 0, lastUsedAt = None,
       createdBy = string_of (data_createdBy d), createdAt = now, updatedAt = now \<rparr>"

definition prisma_create ::
  "store \<Rightarrow> create_data \<Rightarrow> string \<Rightarrow> int \<Rightarrow> (preset_with_creator \<times> store) option" where
  "prisma_create st d new_id now =
     (if \<not> valid_data d then None
      else
        let row = new_row d new_id now
        in Some (filter_preset.extend row \<lparr> creator = find_creator st (createdBy row) \<rparr>,
                 st\<lparr>filter_presets := filter_presets st @ [row],
                    queries := queries st @ [Create d]\<rparr>))"

subsection \<open>Responses\<close>

text \<open>
  Modelled from the spec: the response-formatting helper \<open>respond\<close> (\<open>@/lib/api-response\<close>) is
  not part of the source. It "maps outcomes to the status codes"; an outcome is a constructor
  here, in the order 200, 201, 401, 400, 409, 500, with the message the handler passes.
\<close>

datatype response =
    Ok "preset_listing list"
  | Created preset_with_creator
  | Unauthorized
  | BadRequest string
  | Conflict string
  | ServerError string

subsection \<open>\<open>GET\<close>: list the presets\<close>

text \<open>\<open>searchParams.get\<close>: the first value of a parameter, \<open>None\<close> (null) when it is absent.\<close>

definition searchParams_get :: "(string \<times> string) list \<Rightarrow> string \<Rightarrow> string option" where
  "searchParams_get searchParams k = map_of searchParams k"

definition query_entityType :: "(string \<times> string) list \<Rightarrow> string" where
  "query_entityType searchParams =
     (case searchParams_get searchParams ''entityType'' of
        None \<Rightarrow> ''users''
      | Some v \<Rightarrow> if v = [] then ''users'' else v)"

definition query_isPublic :: "(string \<times> string) list \<Rightarrow> bool" where
  "query_isPublic searchParams = (searchParams_get searchParams ''isPublic'' = Some ''true'')"

definition query_includeShared :: "(string \<times> string) list \<Rightarrow> bool" where
  "query_includeShared searchParams = (searchParams_get searchParams ''includeShared'' \<noteq> Some ''false'')"

definition whereClause :: "string \<Rightarrow> string \<Rightarrow> string \<Rightarrow> bool \<Rightarrow> bool \<Rightarrow> cond list" where
  "whereClause tid uid etype pub shared =
     [Eq TenantId (JStr tid), Eq EntityType (JStr etype)] @
     (if pub then [Eq IsPublic (JBool True)]
      else if shared then [Or [[Eq IsPublic (JBool True)], [Eq CreatedBy (JStr uid)]]]
      else [Eq CreatedBy (JStr uid)])"

definition orderBy :: "(sort_column \<times> direction) list" where
  "orderBy = [(IsDefault, desc), (UsageCount, desc), (CreatedAt, desc)]"

text \<open>The \<open>filterConfig\<close> of a listed row: parsed when it is text, passed through otherwise.\<close>

definition deserialize :: "preset_listing \<Rightarrow> preset_listing option" where
  "deserialize p =
     (case sel_filterConfig p of
        JStr s \<Rightarrow> (case JSON_parse s of None \<Rightarrow> None | Some v \<Rightarrow> Some (p\<lparr>sel_filterConfig := v\<rparr>))
      | _ \<Rightarrow> Some p)"

definition GET :: "tenant_context option \<Rightarrow> (string \<times> string) list \<Rightarrow> store \<Rightarrow> response \<times> store" where
  "GET ctx searchParams st =
     (case caller_identity ctx of
        None \<Rightarrow> (Unauthorized, st)
      | Some (uid, tid) \<Rightarrow>
          (case prisma_findMany st
                  (whereClause tid uid (query_entityType searchParams)
                     (query_isPublic searchParams) (query_includeShared searchParams))
                  orderBy of
             None \<Rightarrow> (ServerError ''Failed to fetch presets'', st)
           | Some (presets, st') \<Rightarrow>
               (case those (map (\<lambda>p. deserialize (select_listing st p)) presets) of
                  None \<Rightarrow> (ServerError ''Failed to fetch presets'', st')
                | Some listed \<Rightarrow> (Ok listed, st'))))"

subsection \<open>\<open>POST\<close>: create a preset\<close>

text \<open>A variable read behind a guard that excludes undefined (which reads as null here).\<close>

fun the_value :: "json option \<Rightarrow> json" where
  "the_value (Some v) = v"
| "the_value None = JNull"

text \<open>\<open>x || d\<close> on a value that may be undefined.\<close>

definition or_else :: "json option \<Rightarrow> json \<Rightarrow> json" where
  "or_else x d = (case x of None \<Rightarrow> d | Some v \<Rightarrow> if truthy (Some v) then v else d)"

text \<open>A destructuring default \<open>{ k = d }\<close>: taken only when the property is undefined.\<close>

definition with_default :: "json option \<Rightarrow> json \<Rightarrow> json" where
  "with_default x d = (case x of None \<Rightarrow> d | Some v \<Rightarrow> v)"

text \<open>
  The handler. Destructuring the body throws when the body is null, which the \<open>catch\<close> of the
  handler answers with \<open>ServerError\<close>; of any other value that is no object every property is
  undefined. The id and the time of the new row are the store's and come as arguments.
\<close>

definition POST :: "tenant_context option \<Rightarrow> json \<Rightarrow> string \<Rightarrow> int \<Rightarrow> store \<Rightarrow> response \<times> store" where
  "POST ctx body new_id now st =
     (case caller_identity ctx of
        None \<Rightarrow> (Unauthorized, st)
      | Some (uid, tid) \<Rightarrow>
          if body = JNull then (ServerError ''Failed to create preset'', st)
          else if \<not> truthy (get_prop body ''name'') \<or> \<not> truthy (get_prop body ''filterConfig'')
          then (BadRequest ''Missing required fields: name, filterConfig'', st)
          else
            let nm = the_value (get_prop body ''name'');
                fc = the_value (get_prop body ''filterConfig'')
            in
            (case prisma_findFirst st
                    [Eq TenantId (JStr tid), Eq Name nm, Eq CreatedBy (JStr uid)] of
               None \<Rightarrow> (ServerError ''Failed to create preset'', st)
             | Some (existing, st1) \<Rightarrow>
                 (case existing of
                    Some e \<Rightarrow> (Conflict ''Preset with this name already exists'', st1)
                  | None \<Rightarrow>
                      (case prisma_create st1
                              \<lparr> data_tenantId = JStr tid,
                                data_name = nm,
                                data_description = or_else (get_prop body ''description'') JNull,
                                data_entityType = with_default (get_prop body ''entityType'') (JStr ''users''),
                                data_filterConfig = JStr (JSON_stringify fc),
                                data_filterLogic = or_else (get_prop fc ''logic'') (JStr ''AND''),
                                data_isPublic = with_default (get_prop body ''isPublic'') (JBool False),
                                data_icon = or_else (get_prop body ''icon'') JNull,
                                data_color = or_else (get_prop body ''color'') JNull,
                                data_createdBy = JStr uid \<rparr>
                              new_id now of
                         None \<Rightarrow> (ServerError ''Failed to create preset'', st1)
                       | Some (preset, st2) \<Rightarrow>
                           (case JSON_parse (string_of (filterConfig preset)) of
                              None \<Rightarrow> (ServerError ''Failed to create preset'', st2)
                            | Some v \<Rightarrow> (Created (preset\<lparr>filterConfig := v\<rparr>), st2))))))"

subsection \<open>The words of the specification\<close>

text \<open>
  The visibility selection policy as the specification words it: within the tenant and the
  entity type, (1) if \<open>isPublic\<close> is true, only presets with \<open>isPublic = true\<close>; (2) else if
  \<open>includeShared\<close> is true, presets with \<open>isPublic = true\<close> or \<open>createdBy = userId\<close>; (3) else
  only presets with \<open>createdBy = userId\<close>.
\<close>

definition visible_to :: "string \<Rightarrow> string \<Rightarrow> string \<Rightarrow> bool \<Rightarrow> bool \<Rightarrow> filter_preset \<Rightarrow> bool" where
  "visible_to tid uid etype pub shared p =
     (tenantId p = tid \<and> entityType p = etype \<and>
      (if pub then isPublic p = True
       else if shared then (isPublic p = True \<or> createdBy p = uid)
       else createdBy p = uid))"

text \<open>
  The result ordering as the specification words it: descending by \<open>isDefault\<close>, then
  descending by \<open>usageCount\<close>, then descending by \<open>createdAt\<close>. \<open>listed_before a b\<close> says that
  \<open>a\<close> may stand before \<open>b\<close>.
\<close>

definition listed_before :: "preset_listing \<Rightarrow> preset_listing \<Rightarrow> bool" where
  "listed_before a b =
     ((sel_isDefault a \<and> \<not> sel_isDefault b)
      \<or> (sel_isDefault a = sel_isDefault b
          \<and> (sel_usageCount b < sel_usageCount a
              \<or> (sel_usageCount a = sel_usageCount b \<and> sel_createdAt b \<le> sel_createdAt a))))"

text \<open>The context of an identified caller.\<close>

definition caller :: "string \<Rightarrow> string \<Rightarrow> tenant_context option" where
  "caller uid tid = Some \<lparr> ctx_userId = Some uid, ctx_tenantId = Some tid \<rparr>"

text \<open>
  A payload of the types the specification gives its fields: a non-empty text \<open>name\<close>, a
  truthy \<open>filterConfig\<close> whose objects have distinct property names and whose \<open>logic\<close> is a text
  when it is given, optional texts \<open>description\<close>, \<open>icon\<close> and \<open>color\<close>, an optional text
  \<open>entityType\<close> and an optional boolean \<open>isPublic\<close>. An optional text may also be any falsy
  value, which the handler replaces.
\<close>

definition optional_text :: "json option \<Rightarrow> bool" where
  "optional_text x = (case x of None \<Rightarrow> True | Some (JStr s) \<Rightarrow> True | Some v \<Rightarrow> \<not> truthy (Some v))"

definition well_typed_payload :: "json \<Rightarrow> bool" where
  "well_typed_payload body =
     ((case get_prop body ''name'' of Some (JStr nm) \<Rightarrow> nm \<noteq> [] | _ \<Rightarrow> False)
      \<and> (case get_prop body ''filterConfig'' of
             None \<Rightarrow> False
           | Some fc \<Rightarrow> truthy (Some fc) \<and> distinct_keys fc \<and> optional_text (get_prop fc ''logic''))
      \<and> optional_text (get_prop body ''description'')
      \<and> optional_text (get_prop body ''icon'')
      \<and> optional_text (get_prop body ''color'')
      \<and> (case get_prop body ''entityType'' of None \<Rightarrow> True | Some v \<Rightarrow> is_string v)
      \<and> (case get_prop body ''isPublic'' of None \<Rightarrow> True | Some v \<Rightarrow> is_boolean v))"

text \<open>
  What serialising and parsing makes of a value: an infinity becomes null and negative zero
  becomes zero; everything else is kept. A value of finite numbers other than negative zero
  is kept as it is.
\<close>

fun number_normal :: "number \<Rightarrow> json" where
  "number_normal (Finite i) = JNum (Finite i)"
| "number_normal NegZero = JNum (Finite 0)"
| "number_normal PosInfinity = JNull"
| "number_normal NegInfinity = JNull"

primrec json_normal :: "json \<Rightarrow> json" where
  "json_normal JNull = JNull"
| "json_normal (JBool b) = JBool b"
| "json_normal (JNum n) = number_normal n"
| "json_normal (JStr s) = JStr s"
| "json_normal (JArr vs) = JArr (map json_normal vs)"
| "json_normal (JObj kvs) = JObj (map (map_prod id json_normal) kvs)"



subsection \<open>Notions used in the proofs\<close>

declare nat_digits.simps [simp del]

text \<open>What may follow a number, what may follow a value, and how a serialised value starts.\<close>

definition number_end :: "string \<Rightarrow> bool" where
  "number_end rest = (rest = [] \<or> (\<not> is_digit (hd rest) \<and> hd rest \<noteq> CHR ''.'' \<and> hd rest \<noteq> CHR ''e'' \<and> hd rest \<noteq> CHR ''E''))"

definition value_end :: "string \<Rightarrow> bool" where
  "value_end rest = (rest = [] \<or> hd rest = CHR '','' \<or> hd rest = CHR '']'' \<or> hd rest = CHR ''}'')"

definition value_start :: "char \<Rightarrow> bool" where
  "value_start c = (c = CHR ''n'' \<or> c = CHR ''t'' \<or> c = CHR ''f'' \<or> c = CHR ''-'' \<or> is_digit c
     \<or> c = CHR 0x22 \<or> c = CHR ''['' \<or> c = CHR ''{'')"

text \<open>The parser reads a serialised value back, whatever follows it, at any sufficient depth.\<close>

definition roundtrips :: "json \<Rightarrow> bool" where
  "roundtrips v = (\<forall>n rest. length (JSON_stringify v) \<le> n \<longrightarrow> value_end rest \<longrightarrow>
     parse_value n (JSON_stringify v @ rest) = Some (json_normal v, rest))"

definition member_text :: "string \<times> json \<Rightarrow> string" where
  "member_text kv = quote (fst kv) @ CHR '':'' # JSON_stringify (snd kv)"

text \<open>A parser under the bound \<open>n\<close> is stable: what it returns it has read from the text, and
  it returns the same under every bound from the number of characters read on.\<close>

definition stable :: "(nat \<Rightarrow> string \<Rightarrow> ('a \<times> string) option) \<Rightarrow> nat \<Rightarrow> bool" where
  "stable f n = (\<forall>s x r. f n s = Some (x, r) \<longrightarrow>
     length r < length s \<and> (\<forall>m. length s - length r \<le> m \<longrightarrow> f m s = Some (x, r)))"

text \<open>The \<open>data\<close> object and the \<open>where\<close> object of the create handler, by name.\<close>

definition data_of :: "string \<Rightarrow> string \<Rightarrow> json \<Rightarrow> create_data" where
  "data_of tid uid body =
     \<lparr> data_tenantId = JStr tid,
       data_name = the_value (get_prop body ''name''),
       data_description = or_else (get_prop body ''description'') JNull,
       data_entityType = with_default (get_prop body ''entityType'') (JStr ''users''),
       data_filterConfig = JStr (JSON_stringify (the_value (get_prop body ''filterConfig''))),
       data_filterLogic = or_else (get_prop (the_value (get_prop body ''filterConfig'')) ''logic'') (JStr ''AND''),
       data_isPublic = with_default (get_prop body ''isPublic'') (JBool False),
       data_icon = or_else (get_prop body ''icon'') JNull,
       data_color = or_else (get_prop body ''color'') JNull,
       data_createdBy = JStr uid \<rparr>"

definition name_where :: "string \<Rightarrow> string \<Rightarrow> json \<Rightarrow> cond list" where
  "name_where tid uid nm = [Eq TenantId (JStr tid), Eq Name nm, Eq CreatedBy (JStr uid)]"

text \<open>Reading a response.\<close>

definition listed_of :: "response \<Rightarrow> preset_listing list" where
  "listed_of r = (case r of Ok xs \<Rightarrow> xs | _ \<Rightarrow> [])"

definition created_of :: "response \<Rightarrow> preset_with_creator option" where
  "created_of r = (case r of Created p \<Rightarrow> Some p | _ \<Rightarrow> None)"

definition is_created :: "response \<Rightarrow> bool" where
  "is_created r = (case r of Created p \<Rightarrow> True | _ \<Rightarrow> False)"

subsection \<open>A store and payloads to run the handlers on\<close>

text \<open>
  Five presets of two tenants and two users; the stored \<open>filterConfig\<close> is the serialised
  text, as the create handler leaves it.
\<close>

definition example_row ::
  "string \<Rightarrow> string \<Rightarrow> string \<Rightarrow> string \<Rightarrow> bool \<Rightarrow> bool \<Rightarrow> int \<Rightarrow> int \<Rightarrow> filter_preset" where
  "example_row i tid uid nm pub dflt usage created =
     \<lparr> id' = i, tenantId = tid, name = nm, description = None, entityType = ''users'',
       filterConfig = JStr (JSON_stringify (JObj [(''logic'', JStr ''OR'')])), filterLogic = ''OR'',
       isPublic = pub, isDefault = dflt, icon = None, color = None, usageCount = usage,
       lastUsedAt = None, createdBy = uid, createdAt = created, updatedAt = created \<rparr>"

definition example_store :: store where
  "example_store =
     \<lparr> filter_presets =
         [example_row ''p1'' ''t1'' ''u1'' ''Mine'' False False 5 100,
          example_row ''p2'' ''t1'' ''u2'' ''Shared'' True True 1 50,
          example_row ''p3'' ''t1'' ''u2'' ''Theirs'' False False 9 70,
          example_row ''p4'' ''t2'' ''u1'' ''Elsewhere'' True False 7 10,
          example_row ''p5'' ''t1'' ''u1'' ''Recent'' False False 5 200],
       users = [\<lparr> user_id = ''u1'', user_name = Some ''Ada'', user_image = None \<rparr>],
       queries = [] \<rparr>"

definition example_config :: json where
  "example_config =
     JObj [(''logic'', JStr ''OR''),
           (''conditions'', JArr [JObj [(''field'', JStr ''role''), (''value'', JStr ''admin'')],
                                  JObj [(''field'', JStr ''logins''), (''min'', JNum (Finite (-3)))]])]"

definition example_body :: "string \<Rightarrow> json" where
  "example_body nm =
     JObj [(''name'', JStr nm), (''description'', JStr []), (''filterConfig'', example_config),
           (''isPublic'', JBool True)]"


definition empty_logic_body :: json where
  "empty_logic_body =
     JObj [(''name'', JStr ''New''),
           (''filterConfig'', JObj [(''logic'', JStr []), (''conditions'', JArr [])])]"

section \<open>Serialising and parsing is a round trip\<close>

lemma nat_digits_nonempty: "nat_digits n \<noteq> []"
  by (subst nat_digits.simps) simp

lemma nat_digits_all_digits: "c \<in> set (nat_digits n) \<Longrightarrow> is_digit c"
proof (induction n rule: nat_digits.induct)
  case (1 n)
  show ?case
  proof (cases "n < 10")
    case True
    with "1.prems" show ?thesis
      by (subst (asm) nat_digits.simps) (simp add: is_digit_def)
  next
    case False
    have "n mod 10 < 10" by simp
    then have "is_digit (char_of (48 + n mod 10))"
      by (simp add: is_digit_def)
    with False "1.prems" "1.IH" show ?thesis
      by (subst (asm) nat_digits.simps) auto
  qed
qed

lemma digits_value_snoc: "digits_value (ds @ [d]) = 10 * digits_value ds + (of_char d - 48)"
  by (simp add: digits_value_def)

lemma digits_value_nat_digits: "digits_value (nat_digits n) = n"
proof (induction n rule: nat_digits.induct)
  case (1 n)
  show ?case
  proof (cases "n < 10")
    case True
    then show ?thesis
      by (subst nat_digits.simps) (simp add: digits_value_def)
  next
    case False
    have "n mod 10 < 10" by simp
    then have "(of_char (char_of (48 + n mod 10) :: char) :: nat) = 48 + n mod 10"
      by simp
    with False "1.IH" show ?thesis
      by (subst nat_digits.simps) (simp add: digits_value_snoc)
  qed
qed

lemma nat_digits_leading_zero: "hd (nat_digits n) = CHR ''0'' \<Longrightarrow> n = 0"
proof (induction n rule: nat_digits.induct)
  case (1 n)
  show ?case
  proof (cases "n < 10")
    case True
    with "1.prems" have "char_of (48 + n) = CHR ''0''"
      by (subst (asm) nat_digits.simps) simp
    then have "(of_char (char_of (48 + n) :: char) :: nat) = of_char (CHR ''0'')"
      by simp
    with True show ?thesis by simp
  next
    case False
    with "1.prems" have "hd (nat_digits (n div 10)) = CHR ''0''"
      by (subst (asm) nat_digits.simps) (simp add: nat_digits_nonempty)
    with False "1.IH" have "n div 10 = 0" by simp
    with False show ?thesis by simp
  qed
qed

lemma nat_digits_zero: "nat_digits 0 = ''0''"
  by (subst nat_digits.simps) (simp add: char_of_eq_iff)

lemma takeWhile_digits: "number_end rest \<Longrightarrow> takeWhile is_digit (nat_digits n @ rest) = nat_digits n"
  by (cases rest) (auto simp: number_end_def takeWhile_append nat_digits_all_digits)

lemma dropWhile_digits: "number_end rest \<Longrightarrow> dropWhile is_digit (nat_digits n @ rest) = rest"
  by (cases rest) (auto simp: number_end_def dropWhile_append nat_digits_all_digits)

lemma hd_nat_digits_not_minus: "hd (nat_digits n) \<noteq> CHR ''-''"
proof -
  have "hd (nat_digits n) \<in> set (nat_digits n)" by (simp add: nat_digits_nonempty)
  then have "is_digit (hd (nat_digits n))" by (rule nat_digits_all_digits)
  then show ?thesis by (auto simp: is_digit_def)
qed

lemma leading_zero_single: "hd (nat_digits n) = CHR ''0'' \<Longrightarrow> length (nat_digits n) = 1"
  using nat_digits_leading_zero [of n] by (auto simp: nat_digits_zero)

lemma parse_number_to_string:
  assumes "number_end rest" "is_finite n"
  shows "parse_number (number_to_string n @ rest) = Some (number_normal n, rest)"
proof (cases n)
  case (Finite i)
  show ?thesis
  proof (cases "i < 0")
    case True
    with assms(1) show ?thesis
      using leading_zero_single [of "nat (- i)"]
      by (auto simp: Finite parse_number_def Let_def takeWhile_digits dropWhile_digits
          nat_digits_nonempty digits_value_nat_digits number_end_def)
  next
    case False
    with assms(1) show ?thesis
      using leading_zero_single [of "nat i"] hd_nat_digits_not_minus [of "nat i"]
      by (auto simp: Finite parse_number_def Let_def takeWhile_digits dropWhile_digits
          nat_digits_nonempty digits_value_nat_digits number_end_def)
  qed
next
  case NegZero
  from assms(1) have "takeWhile is_digit (''0'' @ rest) = ''0''" "dropWhile is_digit (''0'' @ rest) = rest"
    using takeWhile_digits [of rest 0] dropWhile_digits [of rest 0] by (simp_all add: nat_digits_zero)
  with assms(1) show ?thesis
    by (auto simp: NegZero parse_number_def Let_def digits_value_def number_end_def)
qed (use assms(2) in simp_all)

lemma hex_value_hex_digit: "k < 16 \<Longrightarrow> hex_value (hex_digit k) = Some k"
  by (auto simp: hex_value_def hex_digit_def Let_def)

lemma hex_value_zero: "hex_value (CHR ''0'') = Some 0"
  by (simp add: hex_value_def)

lemma hex4_control:
  assumes "n < 32"
  shows "hex4 (CHR ''0'') (CHR ''0'') (hex_digit (n div 16)) (hex_digit (n mod 16)) = Some n"
proof -
  from assms have "n div 16 < 16" by simp
  moreover have "n mod 16 < 16" by simp
  ultimately show ?thesis
    by (simp add: hex4_def hex_value_zero hex_value_hex_digit)
qed

lemma parse_chars_escape: "parse_chars (escape_char c @ t) = prepend c (parse_chars t)"
proof -
  consider (quote) "c = CHR 0x22" | (backslash) "c = CHR 0x5C" | (b) "c = CHR 0x08"
    | (f) "c = CHR 0x0C" | (n) "c = CHR 0x0A" | (r) "c = CHR 0x0D" | (t) "c = CHR 0x09"
    | (control) "c \<noteq> CHR 0x22" "c \<noteq> CHR 0x5C" "c \<noteq> CHR 0x08" "c \<noteq> CHR 0x0C"
        "c \<noteq> CHR 0x0A" "c \<noteq> CHR 0x0D" "c \<noteq> CHR 0x09" "(of_char c :: nat) < 32"
    | (plain) "c \<noteq> CHR 0x22" "c \<noteq> CHR 0x5C" "c \<noteq> CHR 0x08" "c \<noteq> CHR 0x0C"
        "c \<noteq> CHR 0x0A" "c \<noteq> CHR 0x0D" "c \<noteq> CHR 0x09" "\<not> (of_char c :: nat) < 32"
    by blast
  then show ?thesis
  proof cases
    case control
    then have "escape_char c = [CHR 0x5C, CHR ''u'', CHR ''0'', CHR ''0'',
        hex_digit (of_char c div 16), hex_digit (of_char c mod 16)]"
      by (simp add: escape_char_def)
    with control(8) show ?thesis
      using hex4_control [of "of_char c"] by simp
  next
    case plain
    then show ?thesis by (simp add: escape_char_def)
  qed (simp_all add: escape_char_def unescape_def)
qed

lemma parse_chars_escaped:
  "parse_chars (concat (map escape_char s) @ CHR 0x22 # rest) = Some (s, rest)"
  by (induction s) (simp_all add: parse_chars_escape prepend_def)

lemma parse_chars_quote: "parse_chars (tl (quote s) @ rest) = Some (s, rest)"
  by (simp add: quote_def parse_chars_escaped)

lemma value_end_number_end: "value_end rest \<Longrightarrow> number_end rest"
  by (auto simp: value_end_def number_end_def is_digit_def)

lemma hd_number_to_string:
  assumes "is_finite n"
  shows "number_to_string n \<noteq> [] \<and> (hd (number_to_string n) = CHR ''-'' \<or> is_digit (hd (number_to_string n)))"
proof (cases n)
  case (Finite i)
  have "hd (nat_digits (nat i)) \<in> set (nat_digits (nat i))" by (simp add: nat_digits_nonempty)
  then have "is_digit (hd (nat_digits (nat i)))" by (rule nat_digits_all_digits)
  then show ?thesis by (simp add: Finite nat_digits_nonempty)
next
  case NegZero
  then show ?thesis by (simp add: is_digit_def)
qed (use assms in simp_all)

lemma stringify_start: "JSON_stringify v \<noteq> [] \<and> value_start (hd (JSON_stringify v))"
proof (cases v)
  case (JNum n)
  then show ?thesis
    using hd_number_to_string [of n] by (auto simp: value_start_def)
qed (auto simp: value_start_def quote_def)

lemma skip_ws_value_start: "s \<noteq> [] \<Longrightarrow> value_start (hd s) \<Longrightarrow> skip_ws (s @ t) = s @ t"
  by (cases s) (auto simp: skip_ws_def value_start_def is_ws_def is_digit_def)

lemma skip_ws_stringify: "skip_ws (JSON_stringify v @ t) = JSON_stringify v @ t"
  using stringify_start [of v] by (simp add: skip_ws_value_start)

lemma join_comma_Cons: "xs \<noteq> [] \<Longrightarrow> join_comma (x # xs) = x @ CHR '','' # join_comma xs"
  by (cases xs) simp_all

lemma parse_value_Suc:
  "skip_ws s = c # cs \<Longrightarrow> parse_value (Suc n) s =
     (if c = CHR ''['' then
        (case skip_ws cs of
           [] \<Rightarrow> None
         | d # ds \<Rightarrow>
             if d = CHR '']'' then Some (JArr [], ds)
             else (case parse_elements n cs of
                     None \<Rightarrow> None
                   | Some (vs, r) \<Rightarrow> Some (JArr vs, r)))
      else if c = CHR ''{'' then
        (case skip_ws cs of
           [] \<Rightarrow> None
         | d # ds \<Rightarrow>
             if d = CHR ''}'' then Some (JObj [], ds)
             else (case parse_members n cs of
                     None \<Rightarrow> None
                   | Some (kvs, r) \<Rightarrow> Some (JObj (foldl upsert [] kvs), r)))
      else if c = CHR 0x22 then
        (case parse_chars cs of None \<Rightarrow> None | Some (str, r) \<Rightarrow> Some (JStr str, r))
      else if c = CHR ''n'' then
        (case strip_prefix ''null'' (c # cs) of None \<Rightarrow> None | Some r \<Rightarrow> Some (JNull, r))
      else if c = CHR ''t'' then
        (case strip_prefix ''true'' (c # cs) of None \<Rightarrow> None | Some r \<Rightarrow> Some (JBool True, r))
      else if c = CHR ''f'' then
        (case strip_prefix ''false'' (c # cs) of None \<Rightarrow> None | Some r \<Rightarrow> Some (JBool False, r))
      else parse_number (c # cs))"
  by (simp only: parse_value.simps list.case)

lemma skip_ws_Cons: "\<not> is_ws c \<Longrightarrow> skip_ws (c # cs) = c # cs"
  by (simp add: skip_ws_def)

lemma value_start_not_ws: "value_start c \<Longrightarrow> \<not> is_ws c"
  by (auto simp: value_start_def is_ws_def is_digit_def)

lemma value_start_not_close: "value_start c \<Longrightarrow> c \<noteq> CHR '']'' \<and> c \<noteq> CHR ''}''"
  by (auto simp: value_start_def is_digit_def)

lemma number_start_other:
  assumes "c = CHR ''-'' \<or> is_digit c"
  shows "\<not> is_ws c" "c \<noteq> CHR ''[''" "c \<noteq> CHR ''{''" "c \<noteq> CHR 0x22" "c \<noteq> CHR ''n''"
    "c \<noteq> CHR ''t''" "c \<noteq> CHR ''f''"
  using assms by (auto simp: is_ws_def is_digit_def)

lemma parse_value_null: "parse_value (Suc n) (''null'' @ rest) = Some (JNull, rest)"
proof -
  have "skip_ws (''null'' @ rest) = CHR ''n'' # (''ull'' @ rest)"
    by (simp add: skip_ws_def is_ws_def)
  then show ?thesis
    by (simp add: parse_value_Suc strip_prefix_def del: parse_value.simps)
qed

lemma parse_value_true: "parse_value (Suc n) (''true'' @ rest) = Some (JBool True, rest)"
proof -
  have "skip_ws (''true'' @ rest) = CHR ''t'' # (''rue'' @ rest)"
    by (simp add: skip_ws_def is_ws_def)
  then show ?thesis
    by (simp add: parse_value_Suc strip_prefix_def del: parse_value.simps)
qed

lemma parse_value_false: "parse_value (Suc n) (''false'' @ rest) = Some (JBool False, rest)"
proof -
  have "skip_ws (''false'' @ rest) = CHR ''f'' # (''alse'' @ rest)"
    by (simp add: skip_ws_def is_ws_def)
  then show ?thesis
    by (simp add: parse_value_Suc strip_prefix_def del: parse_value.simps)
qed

lemma parse_value_number:
  assumes "s \<noteq> []" "hd s = CHR ''-'' \<or> is_digit (hd s)"
  shows "parse_value (Suc n) s = parse_number s"
proof -
  from assms obtain c cs where s: "s = c # cs" and c: "c = CHR ''-'' \<or> is_digit c"
    by (cases s) auto
  from c have "skip_ws s = c # cs"
    by (simp add: s skip_ws_Cons number_start_other(1))
  then show ?thesis
    using number_start_other [OF c] by (simp add: parse_value_Suc s del: parse_value.simps)
qed

lemma parse_value_string: "parse_value (Suc n) (CHR 0x22 # cs) =
    (case parse_chars cs of None \<Rightarrow> None | Some (str, r) \<Rightarrow> Some (JStr str, r))"
proof -
  have "skip_ws (CHR 0x22 # cs) = CHR 0x22 # cs"
    by (simp add: skip_ws_def is_ws_def)
  then show ?thesis
    by (simp add: parse_value_Suc del: parse_value.simps)
qed

lemma parse_value_empty_array: "parse_value (Suc n) (CHR ''['' # CHR '']'' # rest) = Some (JArr [], rest)"
proof -
  have "skip_ws (CHR ''['' # CHR '']'' # rest) = CHR ''['' # CHR '']'' # rest"
    "skip_ws (CHR '']'' # rest) = CHR '']'' # rest"
    by (simp_all add: skip_ws_def is_ws_def)
  then show ?thesis
    by (simp add: parse_value_Suc del: parse_value.simps)
qed

lemma parse_value_empty_object: "parse_value (Suc n) (CHR ''{'' # CHR ''}'' # rest) = Some (JObj [], rest)"
proof -
  have "skip_ws (CHR ''{'' # CHR ''}'' # rest) = CHR ''{'' # CHR ''}'' # rest"
    "skip_ws (CHR ''}'' # rest) = CHR ''}'' # rest"
    by (simp_all add: skip_ws_def is_ws_def)
  then show ?thesis
    by (simp add: parse_value_Suc del: parse_value.simps)
qed

lemma parse_value_array:
  assumes "cs \<noteq> []" "value_start (hd cs)"
  shows "parse_value (Suc n) (CHR ''['' # cs) =
    (case parse_elements n cs of None \<Rightarrow> None | Some (vs, r) \<Rightarrow> Some (JArr vs, r))"
proof -
  from assms obtain d ds where cs: "cs = d # ds" and d: "value_start d"
    by (cases cs) auto
  have "skip_ws (CHR ''['' # cs) = CHR ''['' # cs"
    by (simp add: skip_ws_def is_ws_def)
  moreover from d have "skip_ws cs = d # ds"
    by (simp add: cs skip_ws_Cons value_start_not_ws)
  moreover from d have "d \<noteq> CHR '']''"
    by (simp add: value_start_not_close)
  ultimately show ?thesis
    by (simp add: parse_value_Suc del: parse_value.simps)
qed

lemma parse_value_object:
  "parse_value (Suc n) (CHR ''{'' # CHR 0x22 # cs) =
    (case parse_members n (CHR 0x22 # cs) of None \<Rightarrow> None
     | Some (kvs, r) \<Rightarrow> Some (JObj (foldl upsert [] kvs), r))"
proof -
  have "skip_ws (CHR ''{'' # CHR 0x22 # cs) = CHR ''{'' # CHR 0x22 # cs"
    "skip_ws (CHR 0x22 # cs) = CHR 0x22 # cs"
    by (simp_all add: skip_ws_def is_ws_def)
  then show ?thesis
    by (simp add: parse_value_Suc del: parse_value.simps)
qed

lemma skip_ws_close: "skip_ws (CHR '']'' # r) = CHR '']'' # r" "skip_ws (CHR ''}'' # r) = CHR ''}'' # r"
  "skip_ws (CHR '','' # r) = CHR '','' # r" "skip_ws (CHR '':'' # r) = CHR '':'' # r"
  "skip_ws (CHR 0x22 # r) = CHR 0x22 # r"
  by (simp_all add: skip_ws_def is_ws_def)

lemma parse_elements_last:
  assumes "parse_value n s = Some (v, CHR '']'' # rest)"
  shows "parse_elements (Suc n) s = Some ([v], rest)"
  using assms by (simp add: skip_ws_close del: parse_value.simps)

lemma parse_elements_more:
  assumes "parse_value n s = Some (v, CHR '','' # t)" "parse_elements n t = Some (vs, rest)"
  shows "parse_elements (Suc n) s = Some (v # vs, rest)"
  using assms by (simp add: skip_ws_close del: parse_value.simps)

lemma parse_members_last:
  assumes "parse_chars cs = Some (k, CHR '':'' # t)" "parse_value n t = Some (v, CHR ''}'' # rest)"
  shows "parse_members (Suc n) (CHR 0x22 # cs) = Some ([(k, v)], rest)"
  using assms by (simp add: skip_ws_close del: parse_value.simps)

lemma parse_members_more:
  assumes "parse_chars cs = Some (k, CHR '':'' # t)" "parse_value n t = Some (v, CHR '','' # u)"
    "parse_members n u = Some (kvs, rest)"
  shows "parse_members (Suc n) (CHR 0x22 # cs) = Some ((k, v) # kvs, rest)"
  using assms by (simp add: skip_ws_close del: parse_value.simps)

lemma value_end_simps: "value_end []" "value_end (CHR '','' # r)" "value_end (CHR '']'' # r)"
  "value_end (CHR ''}'' # r)"
  by (simp_all add: value_end_def)

lemma roundtripsD:
  "roundtrips v \<Longrightarrow> length (JSON_stringify v) \<le> n \<Longrightarrow> value_end rest \<Longrightarrow>
     parse_value n (JSON_stringify v @ rest) = Some (json_normal v, rest)"
  by (simp add: roundtrips_def)

lemma parse_elements_join:
  assumes "vs \<noteq> []" "\<And>v. v \<in> set vs \<Longrightarrow> roundtrips v"
  shows "length (join_comma (map JSON_stringify vs)) < n \<Longrightarrow>
    parse_elements n (join_comma (map JSON_stringify vs) @ CHR '']'' # rest)
      = Some (map json_normal vs, rest)"
  using assms
proof (induction vs arbitrary: n rule: list_nonempty_induct)
  case (single v)
  from single.prems obtain m where n: "n = Suc m" and m: "length (JSON_stringify v) \<le> m"
    by (cases n) auto
  from single.prems have "roundtrips v" by simp
  from roundtripsD [OF this m value_end_simps(3)]
  have "parse_value m (JSON_stringify v @ CHR '']'' # rest) = Some (json_normal v, CHR '']'' # rest)" .
  then show ?case
    unfolding n by (simp add: parse_elements_last del: parse_value.simps parse_elements.simps)
next
  case (cons v vs)
  let ?tail = "join_comma (map JSON_stringify vs)"
  from cons.hyps have join: "join_comma (map JSON_stringify (v # vs)) = JSON_stringify v @ CHR '','' # ?tail"
    by (simp add: join_comma_Cons)
  from cons.prems obtain m where n: "n = Suc m" and m: "length (JSON_stringify v) \<le> m" "length ?tail < m"
    unfolding join by (cases n) auto
  from cons.prems have "roundtrips v" by simp
  from roundtripsD [OF this m(1) value_end_simps(2)]
  have 1: "parse_value m (JSON_stringify v @ CHR '','' # ?tail @ CHR '']'' # rest)
      = Some (json_normal v, CHR '','' # ?tail @ CHR '']'' # rest)" .
  from cons.prems have "\<And>w. w \<in> set vs \<Longrightarrow> roundtrips w" by simp
  from cons.IH [OF m(2) this]
  have 2: "parse_elements m (?tail @ CHR '']'' # rest) = Some (map json_normal vs, rest)" .
  from parse_elements_more [OF 1 2] show ?case
    unfolding n join by simp
qed

lemma stringify_object: "JSON_stringify (JObj kvs) = CHR ''{'' # join_comma (map member_text kvs) @ [CHR ''}'']"
proof -
  have "map (\<lambda>(k, t). quote k @ CHR '':'' # t) (map (map_prod id JSON_stringify) kvs) = map member_text kvs"
    by (induction kvs) (auto simp: member_text_def)
  then show ?thesis by (simp only: JSON_stringify.simps)
qed

lemma member_text_Cons: "member_text kv = CHR 0x22 # tl (quote (fst kv)) @ CHR '':'' # JSON_stringify (snd kv)"
  by (simp add: member_text_def quote_def)

lemma length_member_text: "length (JSON_stringify (snd kv)) < length (member_text kv)"
  by (simp add: member_text_def)

lemma parse_members_join:
  assumes "kvs \<noteq> []" "\<And>kv. kv \<in> set kvs \<Longrightarrow> roundtrips (snd kv)"
  shows "length (join_comma (map member_text kvs)) < n \<Longrightarrow>
    parse_members n (join_comma (map member_text kvs) @ CHR ''}'' # rest)
      = Some (map (map_prod id json_normal) kvs, rest)"
  using assms
proof (induction kvs arbitrary: n rule: list_nonempty_induct)
  case (single kv)
  from single.prems length_member_text [of kv]
  obtain m where n: "n = Suc m" and m: "length (JSON_stringify (snd kv)) \<le> m"
    by (cases n) auto
  have 0: "parse_chars (tl (quote (fst kv)) @ CHR '':'' # JSON_stringify (snd kv) @ CHR ''}'' # rest)
      = Some (fst kv, CHR '':'' # JSON_stringify (snd kv) @ CHR ''}'' # rest)"
    by (rule parse_chars_quote)
  from single.prems have "roundtrips (snd kv)" by simp
  from roundtripsD [OF this m value_end_simps(4)]
  have 1: "parse_value m (JSON_stringify (snd kv) @ CHR ''}'' # rest)
      = Some (json_normal (snd kv), CHR ''}'' # rest)" .
  have kv: "map (map_prod id json_normal) [kv] = [(fst kv, json_normal (snd kv))]"
    by (cases kv) simp
  from parse_members_last [OF 0 1] show ?case
    unfolding n kv by (simp add: member_text_Cons)
next
  case (cons kv kvs)
  let ?tail = "join_comma (map member_text kvs)"
  from cons.hyps have join: "join_comma (map member_text (kv # kvs)) = member_text kv @ CHR '','' # ?tail"
    by (simp add: join_comma_Cons)
  from cons.prems length_member_text [of kv]
  obtain m where n: "n = Suc m" and m: "length (JSON_stringify (snd kv)) \<le> m" "length ?tail < m"
    unfolding join by (cases n) auto
  have 0: "parse_chars (tl (quote (fst kv)) @ CHR '':'' # JSON_stringify (snd kv) @ CHR '','' # ?tail @ CHR ''}'' # rest)
      = Some (fst kv, CHR '':'' # JSON_stringify (snd kv) @ CHR '','' # ?tail @ CHR ''}'' # rest)"
    by (rule parse_chars_quote)
  from cons.prems have "roundtrips (snd kv)" by simp
  from roundtripsD [OF this m(1) value_end_simps(2)]
  have 1: "parse_value m (JSON_stringify (snd kv) @ CHR '','' # ?tail @ CHR ''}'' # rest)
      = Some (json_normal (snd kv), CHR '','' # ?tail @ CHR ''}'' # rest)" .
  from cons.prems have "\<And>w. w \<in> set kvs \<Longrightarrow> roundtrips (snd w)" by simp
  from cons.IH [OF m(2) this]
  have 2: "parse_members m (?tail @ CHR ''}'' # rest) = Some (map (map_prod id json_normal) kvs, rest)" .
  have kv: "map (map_prod id json_normal) (kv # kvs)
      = (fst kv, json_normal (snd kv)) # map (map_prod id json_normal) kvs"
    by (cases kv) simp
  from parse_members_more [OF 0 1 2] show ?case
    unfolding n join kv by (simp add: member_text_Cons)
qed

lemma foldl_upsert_distinct:
  "distinct (map fst (acc @ kvs)) \<Longrightarrow> foldl upsert acc kvs = acc @ kvs"
proof (induction kvs arbitrary: acc)
  case Nil
  then show ?case by simp
next
  case (Cons kv kvs)
  from Cons.prems have "fst kv \<notin> set (map fst acc)" by auto
  then have "upsert acc kv = acc @ [kv]" by (simp add: upsert_def)
  moreover from Cons.prems have "distinct (map fst ((acc @ [kv]) @ kvs))" by simp
  ultimately show ?case using Cons.IH [of "acc @ [kv]"] by simp
qed

lemma join_comma_hd:
  "xs \<noteq> [] \<Longrightarrow> hd xs \<noteq> [] \<Longrightarrow> join_comma xs \<noteq> [] \<and> hd (join_comma xs) = hd (hd xs)"
  by (cases xs rule: join_comma.cases) auto

lemma join_members_start:
  assumes "kvs \<noteq> []"
  shows "\<exists>t. join_comma (map member_text kvs) = CHR 0x22 # t"
proof -
  from assms obtain kv rest where kvs: "kvs = kv # rest" by (cases kvs) auto
  show ?thesis
    by (cases rest) (simp_all add: kvs member_text_Cons)
qed

lemma roundtrips_array:
  assumes "\<And>v. v \<in> set vs \<Longrightarrow> roundtrips v"
  shows "roundtrips (JArr vs)"
  unfolding roundtrips_def
proof (intro allI impI)
  fix n rest
  assume len: "length (JSON_stringify (JArr vs)) \<le> n" and "value_end rest"
  then obtain m where n: "n = Suc m" by (cases n) auto
  show "parse_value n (JSON_stringify (JArr vs) @ rest) = Some (json_normal (JArr vs), rest)"
  proof (cases "vs = []")
    case True
    then show ?thesis
      unfolding n by (simp add: parse_value_empty_array del: parse_value.simps)
  next
    case False
    let ?body = "join_comma (map JSON_stringify vs)"
    from False have "map JSON_stringify vs \<noteq> []" "hd (map JSON_stringify vs) \<noteq> []"
      using stringify_start [of "hd vs"] by (simp_all add: hd_map)
    from join_comma_hd [OF this] False
    have start: "?body \<noteq> []" "value_start (hd ?body)"
      using stringify_start [of "hd vs"] by (simp_all add: hd_map)
    from len have "length ?body < m" unfolding n by simp
    from parse_elements_join [OF False assms this]
    have "parse_elements m (?body @ CHR '']'' # rest) = Some (map json_normal vs, rest)" .
    moreover from start have "?body @ CHR '']'' # rest \<noteq> []" "value_start (hd (?body @ CHR '']'' # rest))"
      by simp_all
    from parse_value_array [OF this]
    have "parse_value (Suc m) (CHR ''['' # ?body @ CHR '']'' # rest) =
      (case parse_elements m (?body @ CHR '']'' # rest) of None \<Rightarrow> None
       | Some (vs, r) \<Rightarrow> Some (JArr vs, r))" .
    ultimately show ?thesis
      unfolding n by (simp del: parse_value.simps)
  qed
qed

lemma roundtrips_object:
  assumes "\<And>kv. kv \<in> set kvs \<Longrightarrow> roundtrips (snd kv)" "distinct (map fst kvs)"
  shows "roundtrips (JObj kvs)"
  unfolding roundtrips_def
proof (intro allI impI)
  fix n rest
  assume len: "length (JSON_stringify (JObj kvs)) \<le> n" and "value_end rest"
  then obtain m where n: "n = Suc m" by (cases n) auto
  show "parse_value n (JSON_stringify (JObj kvs) @ rest) = Some (json_normal (JObj kvs), rest)"
  proof (cases "kvs = []")
    case True
    then show ?thesis
      unfolding n by (simp add: parse_value_empty_object del: parse_value.simps)
  next
    case False
    let ?body = "join_comma (map member_text kvs)"
    from join_members_start [OF False] obtain t where t: "?body = CHR 0x22 # t" ..
    from len have "length ?body < m" unfolding n stringify_object by simp
    from parse_members_join [OF False assms(1) this]
    have "parse_members m (?body @ CHR ''}'' # rest) = Some (map (map_prod id json_normal) kvs, rest)" .
    moreover have "parse_value (Suc m) (CHR ''{'' # CHR 0x22 # t @ CHR ''}'' # rest) =
      (case parse_members m (CHR 0x22 # t @ CHR ''}'' # rest) of None \<Rightarrow> None
       | Some (kvs, r) \<Rightarrow> Some (JObj (foldl upsert [] kvs), r))"
      by (rule parse_value_object)
    moreover from assms(2) have "foldl upsert [] (map (map_prod id json_normal) kvs)
        = map (map_prod id json_normal) kvs"
      using foldl_upsert_distinct [of "[]" "map (map_prod id json_normal) kvs"]
      by (simp add: comp_def)
    ultimately show ?thesis
      unfolding n stringify_object by (simp add: t del: parse_value.simps)
  qed
qed

lemma roundtrips_distinct_keys: "distinct_keys v \<Longrightarrow> roundtrips v"
proof (induction v)
  case JNull
  show ?case
    unfolding roundtrips_def
  proof (intro allI impI)
    fix n rest
    assume "length (JSON_stringify JNull) \<le> n"
    then obtain m where "n = Suc m" by (cases n) auto
    then show "parse_value n (JSON_stringify JNull @ rest) = Some (json_normal JNull, rest)"
      using parse_value_null [of m rest] by (simp del: parse_value.simps)
  qed
next
  case (JBool b)
  show ?case
    unfolding roundtrips_def
  proof (intro allI impI)
    fix n rest
    assume "length (JSON_stringify (JBool b)) \<le> n"
    then obtain m where "n = Suc m" by (cases n; cases b) auto
    then show "parse_value n (JSON_stringify (JBool b) @ rest) = Some (json_normal (JBool b), rest)"
      using parse_value_true [of m rest] parse_value_false [of m rest]
      by (simp del: parse_value.simps)
  qed
next
  case (JNum x)
  show ?case
    unfolding roundtrips_def
  proof (intro allI impI)
    fix n rest
    assume len: "length (JSON_stringify (JNum x)) \<le> n" and rest: "value_end rest"
    show "parse_value n (JSON_stringify (JNum x) @ rest) = Some (json_normal (JNum x), rest)"
    proof (cases "is_finite x")
      case True
      from len True hd_number_to_string [OF True] obtain m where n: "n = Suc m" by (cases n) auto
      from hd_number_to_string [OF True]
      have "parse_value (Suc m) (number_to_string x @ rest) = parse_number (number_to_string x @ rest)"
        by (intro parse_value_number) auto
      with rest True show ?thesis
        unfolding n by (simp add: parse_number_to_string value_end_number_end del: parse_value.simps)
    next
      case False
      with len obtain m where n: "n = Suc m" by (cases n) auto
      from False have "json_normal (JNum x) = JNull" by (cases x) simp_all
      with False show ?thesis
        unfolding n using parse_value_null [of m rest] by (simp del: parse_value.simps)
    qed
  qed
next
  case (JStr s)
  show ?case
    unfolding roundtrips_def
  proof (intro allI impI)
    fix n rest
    assume "length (JSON_stringify (JStr s)) \<le> n"
    then obtain m where n: "n = Suc m" by (cases n) (auto simp: quote_def)
    have "parse_value (Suc m) (CHR 0x22 # tl (quote s) @ rest) = Some (JStr s, rest)"
      by (simp only: parse_value_string parse_chars_quote option.case prod.case)
    moreover have "quote s @ rest = CHR 0x22 # tl (quote s) @ rest" by (simp add: quote_def)
    ultimately show "parse_value n (JSON_stringify (JStr s) @ rest) = Some (json_normal (JStr s), rest)"
      unfolding n by (simp only: JSON_stringify.simps json_normal.simps)
  qed
next
  case (JArr vs)
  then show ?case by (intro roundtrips_array) simp
next
  case (JObj kvs)
  then show ?case by (intro roundtrips_object) auto
qed

lemma JSON_parse_stringify: "distinct_keys v \<Longrightarrow> JSON_parse (JSON_stringify v) = Some (json_normal v)"
proof -
  assume "distinct_keys v"
  then have "roundtrips v" by (rule roundtrips_distinct_keys)
  from roundtripsD [OF this, of "Suc (length (JSON_stringify v))" "[]"]
  have "parse_value (Suc (length (JSON_stringify v))) (JSON_stringify v) = Some (json_normal v, [])"
    by (simp add: value_end_simps)
  then show ?thesis
    by (simp add: JSON_parse_def skip_ws_def del: parse_value.simps)
qed


lemma distinct_keys_normal: "distinct_keys v \<Longrightarrow> distinct_keys (json_normal v)"
proof (induction v)
  case (JNum n)
  then show ?case by (cases n) simp_all
next
  case (JObj kvs)
  then show ?case by (auto simp: comp_def)
qed simp_all

section \<open>The bound of the parser is never reached\<close>

lemma prepend_Some: "prepend c res = Some (s, r) \<longleftrightarrow> (\<exists>s'. res = Some (s', r) \<and> s = c # s')"
  by (auto simp: prepend_def split: option.splits)

lemma parse_chars_shorter: "parse_chars s = Some (str, r) \<Longrightarrow> length r < length s"
proof (induction s arbitrary: str rule: length_induct)
  case (1 s)
  from "1.prems" obtain c cs where s: "s = c # cs" by (cases s) auto
  have IH: "length r < length t" if "length t < length s" "parse_chars t = Some (str', r)" for t str'
    using "1.IH" that by blast
  show ?case
  proof (cases "c = CHR 0x22")
    case True
    with "1.prems" show ?thesis by (simp add: s)
  next
    case quote: False
    show ?thesis
    proof (cases "c = CHR 0x5C")
      case False
      with quote "1.prems" obtain s' where "parse_chars cs = Some (s', r)"
        by (auto simp: s prepend_Some split: if_splits)
      from IH [OF _ this] show ?thesis by (simp add: s)
    next
      case True
      with quote "1.prems" obtain e cs' where cs: "cs = e # cs'"
        by (cases cs) (auto simp: s)
      show ?thesis
      proof (cases "e = CHR ''u''")
        case u: True
        with quote True cs "1.prems" obtain h1 h2 h3 h4 cs'' s' where
          *: "cs' = h1 # h2 # h3 # h4 # cs''" "parse_chars cs'' = Some (s', r)"
          by (auto simp: s prepend_Some split: list.splits option.splits if_splits)
        from IH [OF _ *(2)] show ?thesis
          by (simp add: s cs *(1))
      next
        case nu: False
        with quote True cs "1.prems" obtain s' where
          *: "parse_chars cs' = Some (s', r)"
          by (auto simp: s prepend_Some split: option.splits)
        from IH [OF _ *] show ?thesis
          by (simp add: s cs)
      qed
    qed
  qed
qed

lemma parse_number_shorter: "parse_number s = Some (v, r) \<Longrightarrow> length r < length s"
proof -
  assume a: "parse_number s = Some (v, r)"
  let ?s1 = "if s \<noteq> [] \<and> hd s = CHR ''-'' then tl s else s"
  from a have r: "r = dropWhile is_digit ?s1" and ds: "takeWhile is_digit ?s1 \<noteq> []"
    by (auto simp: parse_number_def Let_def split: if_splits)
  have "length (takeWhile is_digit ?s1) + length (dropWhile is_digit ?s1) = length ?s1"
    by (metis length_append takeWhile_dropWhile_id)
  with ds have "length (dropWhile is_digit ?s1) < length ?s1"
    by (cases "takeWhile is_digit ?s1") auto
  moreover have "length ?s1 \<le> length s" by simp
  ultimately show ?thesis unfolding r by linarith
qed

lemma strip_prefix_shorter: "strip_prefix p s = Some r \<Longrightarrow> p \<noteq> [] \<Longrightarrow> length r < length s"
  by (cases s) (auto simp: strip_prefix_def split: if_splits)

lemma skip_ws_length: "length (skip_ws s) \<le> length s"
  by (simp add: skip_ws_def length_dropWhile_le)

lemma skip_ws_Cons_length: "skip_ws s = c # cs \<Longrightarrow> length cs < length s"
  using skip_ws_length [of s] by simp

lemma stableD:
  assumes "stable f n" "f n s = Some (x, r)"
  shows "length r < length s" "length s - length r \<le> m \<Longrightarrow> f m s = Some (x, r)"
proof -
  note * = assms(1) [unfolded stable_def, rule_format, OF assms(2)]
  from * show "length r < length s" by (rule conjunct1)
  from * have "\<forall>m. length s - length r \<le> m \<longrightarrow> f m s = Some (x, r)" by (rule conjunct2)
  then have "length s - length r \<le> m \<longrightarrow> f m s = Some (x, r)" by (rule spec)
  then show "length s - length r \<le> m \<Longrightarrow> f m s = Some (x, r)" by (rule mp)
qed



lemma parse_elements_SucD:
  assumes "parse_elements (Suc n) s = Some (vs, r)"
  obtains v r1 cs vs' where "parse_value n s = Some (v, r1)" "skip_ws r1 = CHR '','' # cs"
      "parse_elements n cs = Some (vs', r)" "vs = v # vs'"
    | v r1 where "parse_value n s = Some (v, r1)" "skip_ws r1 = CHR '']'' # r" "vs = [v]"
proof -
  note [simp del] = parse_value.simps parse_elements.simps(2)
  note unfold = parse_elements.simps(2) [of n s]
  from assms obtain v r1 where v: "parse_value n s = Some (v, r1)"
    by (cases "parse_value n s") (auto simp: unfold)
  with assms obtain c cs where c: "skip_ws r1 = c # cs"
    by (cases "skip_ws r1") (auto simp: unfold)
  show thesis
  proof (cases "c = CHR '',''")
    case True
    with assms v c obtain vs' where "parse_elements n cs = Some (vs', r)" "vs = v # vs'"
      by (cases "parse_elements n cs") (auto simp: unfold)
    with v c True that(1) show thesis by blast
  next
    case False
    with assms v c have "c = CHR '']''" "vs = [v]" "r = cs"
      by (auto simp: unfold split: if_splits)
    with v c that(2) show thesis by blast
  qed
qed




lemma parse_elements_SucI:
  "parse_value n s = Some (v, r1) \<Longrightarrow> skip_ws r1 = CHR '','' # cs \<Longrightarrow>
     parse_elements n cs = Some (vs', r) \<Longrightarrow> parse_elements (Suc n) s = Some (v # vs', r)"
  "parse_value n s = Some (v, r1) \<Longrightarrow> skip_ws r1 = CHR '']'' # r \<Longrightarrow>
     parse_elements (Suc n) s = Some ([v], r)"
  by (simp_all add: parse_elements.simps(2) [of n s] del: parse_value.simps parse_elements.simps(2))




lemma parse_members_SucD:
  assumes "parse_members (Suc n) s = Some (kvs, r)"
  obtains cs k r0 cs' v r1 ds kvs' where "skip_ws s = CHR 0x22 # cs" "parse_chars cs = Some (k, r0)"
      "skip_ws r0 = CHR '':'' # cs'" "parse_value n cs' = Some (v, r1)" "skip_ws r1 = CHR '','' # ds"
      "parse_members n ds = Some (kvs', r)" "kvs = (k, v) # kvs'"
    | cs k r0 cs' v r1 where "skip_ws s = CHR 0x22 # cs" "parse_chars cs = Some (k, r0)"
      "skip_ws r0 = CHR '':'' # cs'" "parse_value n cs' = Some (v, r1)" "skip_ws r1 = CHR ''}'' # r"
      "kvs = [(k, v)]"
proof -
  note [simp del] = parse_value.simps parse_members.simps(2) parse_chars.simps
  note unfold = parse_members.simps(2) [of n s]
  from assms obtain q cs where "skip_ws s = q # cs"
    by (cases "skip_ws s") (auto simp: unfold)
  with assms have s: "skip_ws s = CHR 0x22 # cs"
    by (cases "q = CHR 0x22") (auto simp: unfold)
  with assms obtain k r0 where k: "parse_chars cs = Some (k, r0)"
    by (cases "parse_chars cs") (auto simp: unfold)
  with assms s obtain c cs' where "skip_ws r0 = c # cs'"
    by (cases "skip_ws r0") (auto simp: unfold)
  with assms s k have c: "skip_ws r0 = CHR '':'' # cs'"
    by (cases "c = CHR '':''") (auto simp: unfold)
  with assms s k obtain v r1 where v: "parse_value n cs' = Some (v, r1)"
    by (cases "parse_value n cs'") (auto simp: unfold)
  with assms s k c obtain d ds where d: "skip_ws r1 = d # ds"
    by (cases "skip_ws r1") (auto simp: unfold)
  show thesis
  proof (cases "d = CHR '',''")
    case True
    with assms s k c v d obtain kvs' where "parse_members n ds = Some (kvs', r)" "kvs = (k, v) # kvs'"
      by (cases "parse_members n ds") (auto simp: unfold)
    with s k c v d True that(1) show thesis by blast
  next
    case False
    with assms s k c v d have "d = CHR ''}''" "kvs = [(k, v)]" "r = ds"
      by (auto simp: unfold split: if_splits)
    with s k c v d that(2) show thesis by blast
  qed
qed




lemma parse_members_SucI:
  "skip_ws s = CHR 0x22 # cs \<Longrightarrow> parse_chars cs = Some (k, r0) \<Longrightarrow>
     skip_ws r0 = CHR '':'' # cs' \<Longrightarrow> parse_value n cs' = Some (v, r1) \<Longrightarrow>
     skip_ws r1 = CHR '','' # ds \<Longrightarrow> parse_members n ds = Some (kvs', r) \<Longrightarrow>
     parse_members (Suc n) s = Some ((k, v) # kvs', r)"
  "skip_ws s = CHR 0x22 # cs \<Longrightarrow> parse_chars cs = Some (k, r0) \<Longrightarrow>
     skip_ws r0 = CHR '':'' # cs' \<Longrightarrow> parse_value n cs' = Some (v, r1) \<Longrightarrow>
     skip_ws r1 = CHR ''}'' # r \<Longrightarrow> parse_members (Suc n) s = Some ([(k, v)], r)"
  by (simp_all add: parse_members.simps(2) [of n s]
      del: parse_value.simps parse_chars.simps parse_members.simps(2))



lemma parse_value_Suc_Nil: "skip_ws s = [] \<Longrightarrow> parse_value (Suc n) s = None"
  by (simp only: parse_value.simps list.case)

lemma parse_value_flat:
  assumes "skip_ws s = c # cs" "c \<noteq> CHR ''[''" "c \<noteq> CHR ''{''"
  shows "parse_value (Suc n) s = parse_value (Suc m) s"
  using assms(2,3) by (simp add: parse_value_Suc [OF assms(1)] del: parse_value.simps)

lemma parse_value_flat_shorter:
  assumes "skip_ws s = c # cs" "c \<noteq> CHR ''[''" "c \<noteq> CHR ''{''"
    and "parse_value (Suc n) s = Some (v, r)"
  shows "length r < length s"
proof -
  note len = skip_ws_length [of s]
  from assms(4) have *: "(if c = CHR 0x22 then
        (case parse_chars cs of None \<Rightarrow> None | Some (str, r) \<Rightarrow> Some (JStr str, r))
      else if c = CHR ''n'' then
        (case strip_prefix ''null'' (c # cs) of None \<Rightarrow> None | Some r \<Rightarrow> Some (JNull, r))
      else if c = CHR ''t'' then
        (case strip_prefix ''true'' (c # cs) of None \<Rightarrow> None | Some r \<Rightarrow> Some (JBool True, r))
      else if c = CHR ''f'' then
        (case strip_prefix ''false'' (c # cs) of None \<Rightarrow> None | Some r \<Rightarrow> Some (JBool False, r))
      else parse_number (c # cs)) = Some (v, r)"
    using assms(2,3) by (simp add: parse_value_Suc [OF assms(1)] del: parse_value.simps)
  consider (str) "c = CHR 0x22" | (null) "c \<noteq> CHR 0x22" "c = CHR ''n''"
    | (true) "c \<noteq> CHR 0x22" "c \<noteq> CHR ''n''" "c = CHR ''t''"
    | (false) "c \<noteq> CHR 0x22" "c \<noteq> CHR ''n''" "c \<noteq> CHR ''t''" "c = CHR ''f''"
    | (num) "c \<noteq> CHR 0x22" "c \<noteq> CHR ''n''" "c \<noteq> CHR ''t''" "c \<noteq> CHR ''f''"
    by blast
  then have "length r < length (c # cs)"
  proof cases
    case str
    with * obtain k where "parse_chars cs = Some (k, r)"
      by (cases "parse_chars cs") auto
    from parse_chars_shorter [OF this] show ?thesis by simp
  next
    case null
    with * have "strip_prefix ''null'' (c # cs) = Some r"
      by (cases "strip_prefix ''null'' (c # cs)") auto
    from strip_prefix_shorter [OF this] show ?thesis by simp
  next
    case true
    with * have "strip_prefix ''true'' (c # cs) = Some r"
      by (cases "strip_prefix ''true'' (c # cs)") auto
    from strip_prefix_shorter [OF this] show ?thesis by simp
  next
    case false
    with * have "strip_prefix ''false'' (c # cs) = Some r"
      by (cases "strip_prefix ''false'' (c # cs)") auto
    from strip_prefix_shorter [OF this] show ?thesis by simp
  next
    case num
    with * have "parse_number (c # cs) = Some (v, r)" by simp
    from parse_number_shorter [OF this] show ?thesis .
  qed
  with len assms(1) show ?thesis by simp
qed

lemma parse_value_array_cases:
  assumes "skip_ws s = CHR ''['' # cs" "parse_value (Suc n) s = Some (v, r)"
  obtains "skip_ws cs = CHR '']'' # r" "v = JArr []"
    | d ds vs where "skip_ws cs = d # ds" "d \<noteq> CHR '']''" "parse_elements n cs = Some (vs, r)" "v = JArr vs"
proof -
  note u = parse_value_Suc [OF assms(1), of n]
  from assms(2) obtain d ds where d: "skip_ws cs = d # ds"
    by (cases "skip_ws cs") (auto simp: u simp del: parse_value.simps)
  show thesis
  proof (cases "d = CHR '']''")
    case True
    with assms(2) d have "v = JArr []" "r = ds"
      by (auto simp: u simp del: parse_value.simps)
    with d True that(1) show thesis by blast
  next
    case False
    with assms(2) d obtain vs where "parse_elements n cs = Some (vs, r)" "v = JArr vs"
      by (cases "parse_elements n cs") (auto simp: u simp del: parse_value.simps)
    with d False that(2) show thesis by blast
  qed
qed

lemma parse_value_object_cases:
  assumes "skip_ws s = CHR ''{'' # cs" "parse_value (Suc n) s = Some (v, r)"
  obtains "skip_ws cs = CHR ''}'' # r" "v = JObj []"
    | d ds kvs where "skip_ws cs = d # ds" "d \<noteq> CHR ''}''" "parse_members n cs = Some (kvs, r)"
        "v = JObj (foldl upsert [] kvs)"
proof -
  note u = parse_value_Suc [OF assms(1), of n]
  from assms(2) obtain d ds where d: "skip_ws cs = d # ds"
    by (cases "skip_ws cs") (auto simp: u simp del: parse_value.simps)
  show thesis
  proof (cases "d = CHR ''}''")
    case True
    with assms(2) d have "v = JObj []" "r = ds"
      by (auto simp: u simp del: parse_value.simps)
    with d True that(1) show thesis by blast
  next
    case False
    with assms(2) d obtain kvs where "parse_members n cs = Some (kvs, r)" "v = JObj (foldl upsert [] kvs)"
      by (cases "parse_members n cs") (auto simp: u simp del: parse_value.simps)
    with d False that(2) show thesis by blast
  qed
qed


lemma stableI:
  assumes "\<And>s x r. f n s = Some (x, r) \<Longrightarrow> length r < length s"
    and "\<And>s x r m. f n s = Some (x, r) \<Longrightarrow> length s - length r \<le> m \<Longrightarrow> f m s = Some (x, r)"
  shows "stable f n"
  unfolding stable_def
proof (intro allI impI conjI)
  fix s x r m
  assume a: "f n s = Some (x, r)"
  from assms(1) [OF a] show "length r < length s" .
  assume "length s - length r \<le> m"
  with a show "f m s = Some (x, r)" by (rule assms(2))
qed

lemma stable_value_step:
  assumes E: "stable parse_elements n" and M: "stable parse_members n"
  shows "stable parse_value (Suc n)"
proof (rule stableI)
  fix s v r
  assume a: "parse_value (Suc n) s = Some (v, r)"
  then obtain c cs where sk: "skip_ws s = c # cs"
    by (cases "skip_ws s") (simp_all add: parse_value_Suc_Nil del: parse_value.simps)
  note len = skip_ws_Cons_length [OF sk]
  show "length r < length s"
  proof (cases "c = CHR ''['' \<or> c = CHR ''{''")
    case False
    with parse_value_flat_shorter [OF sk _ _ a] show ?thesis by simp
  next
    case True
    then show ?thesis
    proof
      assume c: "c = CHR ''[''"
      from sk a show ?thesis
        unfolding c
      proof (cases rule: parse_value_array_cases)
        case 1
        from skip_ws_Cons_length [OF 1(1)] len show ?thesis by simp
      next
        case (2 d ds vs)
        from stableD(1) [OF E 2(3)] len show ?thesis by simp
      qed
    next
      assume c: "c = CHR ''{''"
      from sk a show ?thesis
        unfolding c
      proof (cases rule: parse_value_object_cases)
        case 1
        from skip_ws_Cons_length [OF 1(1)] len show ?thesis by simp
      next
        case (2 d ds kvs)
        from stableD(1) [OF M 2(3)] len show ?thesis by simp
      qed
    qed
  qed
next
  fix s v r m
  assume a: "parse_value (Suc n) s = Some (v, r)" and m: "length s - length r \<le> m"
  from a obtain c cs where sk: "skip_ws s = c # cs"
    by (cases "skip_ws s") (simp_all add: parse_value_Suc_Nil del: parse_value.simps)
  note len = skip_ws_Cons_length [OF sk]
  show "parse_value m s = Some (v, r)"
  proof (cases "c = CHR ''['' \<or> c = CHR ''{''")
    case False
    with parse_value_flat_shorter [OF sk _ _ a] have "length r < length s" by simp
    with m obtain m' where m': "m = Suc m'" by (cases m) auto
    from False parse_value_flat [OF sk, of m' n] a show ?thesis
      unfolding m' by simp
  next
    case True
    then show ?thesis
    proof
      assume c: "c = CHR ''[''"
      from sk a show ?thesis
        unfolding c
      proof (cases rule: parse_value_array_cases)
        case 1
        from skip_ws_Cons_length [OF 1(1)] len m obtain m' where m': "m = Suc m'"
          by (cases m) auto
        from 1 show ?thesis
          unfolding m' by (simp add: parse_value_Suc [OF sk [unfolded c]] del: parse_value.simps)
      next
        case (2 d ds vs)
        from stableD(1) [OF E 2(3)] len m obtain m' where m': "m = Suc m'"
          and "length cs - length r \<le> m'"
          by (cases m) auto
        from stableD(2) [OF E 2(3) this(2)] 2 show ?thesis
          unfolding m' by (simp add: parse_value_Suc [OF sk [unfolded c]] del: parse_value.simps)
      qed
    next
      assume c: "c = CHR ''{''"
      from sk a show ?thesis
        unfolding c
      proof (cases rule: parse_value_object_cases)
        case 1
        from skip_ws_Cons_length [OF 1(1)] len m obtain m' where m': "m = Suc m'"
          by (cases m) auto
        from 1 show ?thesis
          unfolding m' by (simp add: parse_value_Suc [OF sk [unfolded c]] del: parse_value.simps)
      next
        case (2 d ds kvs)
        from stableD(1) [OF M 2(3)] len m obtain m' where m': "m = Suc m'"
          and "length cs - length r \<le> m'"
          by (cases m) auto
        from stableD(2) [OF M 2(3) this(2)] 2 show ?thesis
          unfolding m' by (simp add: parse_value_Suc [OF sk [unfolded c]] del: parse_value.simps)
      qed
    qed
  qed
qed


lemma stable_elements_step:
  assumes V: "stable parse_value n" and E: "stable parse_elements n"
  shows "stable parse_elements (Suc n)"
proof (rule stableI)
  fix s vs r
  assume "parse_elements (Suc n) s = Some (vs, r)"
  then show "length r < length s"
  proof (cases rule: parse_elements_SucD)
    case (1 v r1 cs vs')
    from stableD(1) [OF V 1(1)] skip_ws_Cons_length [OF 1(2)] stableD(1) [OF E 1(3)]
    show ?thesis by simp
  next
    case (2 v r1)
    from stableD(1) [OF V 2(1)] skip_ws_Cons_length [OF 2(2)] show ?thesis by simp
  qed
next
  fix s vs r m
  assume "parse_elements (Suc n) s = Some (vs, r)" and m: "length s - length r \<le> m"
  then show "parse_elements m s = Some (vs, r)"
  proof (cases rule: parse_elements_SucD)
    case (1 v r1 cs vs')
    from stableD(1) [OF V 1(1)] skip_ws_Cons_length [OF 1(2)] stableD(1) [OF E 1(3)] m
    obtain m' where m': "m = Suc m'" and "length s - length r1 \<le> m'" "length cs - length r \<le> m'"
      by (cases m) auto
    from stableD(2) [OF V 1(1) this(2)] 1(2) stableD(2) [OF E 1(3) this(3)]
    have "parse_elements (Suc m') s = Some (v # vs', r)"
      by (rule parse_elements_SucI(1))
    with 1(4) show ?thesis unfolding m' by simp
  next
    case (2 v r1)
    from stableD(1) [OF V 2(1)] skip_ws_Cons_length [OF 2(2)] m
    obtain m' where m': "m = Suc m'" and "length s - length r1 \<le> m'"
      by (cases m) auto
    from stableD(2) [OF V 2(1) this(2)] 2(2)
    have "parse_elements (Suc m') s = Some ([v], r)"
      by (rule parse_elements_SucI(2))
    with 2(3) show ?thesis unfolding m' by simp
  qed
qed

lemma stable_members_step:
  assumes V: "stable parse_value n" and M: "stable parse_members n"
  shows "stable parse_members (Suc n)"
proof (rule stableI)
  fix s kvs r
  assume "parse_members (Suc n) s = Some (kvs, r)"
  then show "length r < length s"
  proof (cases rule: parse_members_SucD)
    case (1 cs k r0 cs' v r1 ds kvs')
    from skip_ws_Cons_length [OF 1(1)] parse_chars_shorter [OF 1(2)] skip_ws_Cons_length [OF 1(3)]
      stableD(1) [OF V 1(4)] skip_ws_Cons_length [OF 1(5)] stableD(1) [OF M 1(6)]
    show ?thesis by simp
  next
    case (2 cs k r0 cs' v r1)
    from skip_ws_Cons_length [OF 2(1)] parse_chars_shorter [OF 2(2)] skip_ws_Cons_length [OF 2(3)]
      stableD(1) [OF V 2(4)] skip_ws_Cons_length [OF 2(5)]
    show ?thesis by simp
  qed
next
  fix s kvs r m
  assume "parse_members (Suc n) s = Some (kvs, r)" and m: "length s - length r \<le> m"
  then show "parse_members m s = Some (kvs, r)"
  proof (cases rule: parse_members_SucD)
    case (1 cs k r0 cs' v r1 ds kvs')
    from skip_ws_Cons_length [OF 1(1)] parse_chars_shorter [OF 1(2)] skip_ws_Cons_length [OF 1(3)]
      stableD(1) [OF V 1(4)] skip_ws_Cons_length [OF 1(5)] stableD(1) [OF M 1(6)] m
    obtain m' where m': "m = Suc m'" and "length cs' - length r1 \<le> m'" "length ds - length r \<le> m'"
      by (cases m) auto
    from 1(1,2,3) stableD(2) [OF V 1(4) this(2)] 1(5) stableD(2) [OF M 1(6) this(3)]
    have "parse_members (Suc m') s = Some ((k, v) # kvs', r)"
      by (rule parse_members_SucI(1))
    with 1(7) show ?thesis unfolding m' by simp
  next
    case (2 cs k r0 cs' v r1)
    from skip_ws_Cons_length [OF 2(1)] parse_chars_shorter [OF 2(2)] skip_ws_Cons_length [OF 2(3)]
      stableD(1) [OF V 2(4)] skip_ws_Cons_length [OF 2(5)] m
    obtain m' where m': "m = Suc m'" and "length cs' - length r1 \<le> m'"
      by (cases m) auto
    from 2(1,2,3) stableD(2) [OF V 2(4) this(2)] 2(5)
    have "parse_members (Suc m') s = Some ([(k, v)], r)"
      by (rule parse_members_SucI(2))
    with 2(6) show ?thesis unfolding m' by simp
  qed
qed

lemma stable_all: "stable parse_value n \<and> stable parse_elements n \<and> stable parse_members n"
proof (induction n)
  case 0
  show ?case by (simp add: stable_def)
next
  case (Suc n)
  then show ?case
    by (intro conjI stable_value_step stable_elements_step stable_members_step) simp_all
qed

text \<open>The bound of \<open>JSON_parse\<close> is never what makes it fail: a text that parses under any
  bound parses to the same value under the bound \<open>JSON_parse\<close> takes.\<close>

lemma JSON_parse_bound:
  assumes "parse_value n s = Some (v, r)" "skip_ws r = []"
  shows "JSON_parse s = Some v"
proof -
  have "stable parse_value n" using stable_all by blast
  from stableD(2) [OF this assms(1), of "Suc (length s)"]
  have "parse_value (Suc (length s)) s = Some (v, r)" by simp
  with assms(2) show ?thesis by (simp add: JSON_parse_def del: parse_value.simps)
qed

section \<open>The handlers step by step\<close>

lemma caller_identity_caller:
  "uid \<noteq> [] \<Longrightarrow> tid \<noteq> [] \<Longrightarrow> caller_identity (caller uid tid) = Some (uid, tid)"
  by (simp add: caller_identity_def caller_def)

lemma caller_identity_None_iff:
  "caller_identity ctx = None \<longleftrightarrow>
     (ctx = None \<or> (\<exists>c. ctx = Some c \<and>
        (ctx_userId c = None \<or> ctx_userId c = Some [] \<or> ctx_tenantId c = None \<or> ctx_tenantId c = Some [])))"
  by (auto simp: caller_identity_def split: option.splits)

lemma valid_where_whereClause: "valid_where (whereClause tid uid etype pub shared)"
  by (simp add: valid_where_def whereClause_def)

lemma matches_whereClause:
  "matches (whereClause tid uid etype pub shared) p = visible_to tid uid etype pub shared p"
  by (auto simp: matches_def whereClause_def visible_to_def)

lemma GET_authorized:
  assumes "caller_identity ctx = Some (uid, tid)"
  shows "snd (GET ctx sp st) = st\<lparr>queries := queries st @
     [FindMany (whereClause tid uid (query_entityType sp) (query_isPublic sp) (query_includeShared sp)) orderBy]\<rparr>"
  using assms
  by (simp add: GET_def prisma_findMany_def valid_where_whereClause split: option.splits)

lemma those_map_Some:
  "those (map f ys) = Some xs \<Longrightarrow> list_all2 (\<lambda>y x. f y = Some x) ys xs"
  by (induction ys arbitrary: xs) (auto split: option.splits)

lemma GET_Ok:
  assumes "fst (GET ctx sp st) = Ok xs"
  shows "\<exists>uid tid. caller_identity ctx = Some (uid, tid) \<and>
     list_all2 (\<lambda>p x. deserialize (select_listing st p) = Some x)
       (sort_key (order_key orderBy)
          (filter (matches (whereClause tid uid (query_entityType sp) (query_isPublic sp) (query_includeShared sp)))
             (filter_presets st))) xs"
  using assms
  by (auto simp: GET_def prisma_findMany_def valid_where_whereClause those_map_Some
      split: option.splits prod.splits)

lemma deserialize_fields:
  assumes "deserialize l = Some x"
  shows "sel_isDefault x = sel_isDefault l" "sel_usageCount x = sel_usageCount l"
    "sel_createdAt x = sel_createdAt l" "sel_id x = sel_id l"
  using assms by (auto simp: deserialize_def split: json.splits option.splits)

lemma order_key_orderBy:
  "order_key orderBy p = [- (if isDefault p then 1 else 0), - usageCount p, - createdAt p]"
  by (simp add: order_key_def orderBy_def)

lemma order_key_le_listed_before:
  assumes "order_key orderBy p \<le> order_key orderBy q"
    "deserialize (select_listing st p) = Some x" "deserialize (select_listing st q) = Some y"
  shows "listed_before x y"
proof -
  from assms(2,3) have "sel_isDefault x = isDefault p" "sel_usageCount x = usageCount p"
    "sel_createdAt x = createdAt p" "sel_isDefault y = isDefault q" "sel_usageCount y = usageCount q"
    "sel_createdAt y = createdAt q"
    by (simp_all add: deserialize_fields select_listing_def)
  with assms(1) show ?thesis
    by (auto simp: order_key_orderBy listed_before_def split: if_splits)
qed

lemma sorted_wrt_list_all2:
  assumes "list_all2 R ys xs" "sorted_wrt P ys"
    "\<And>a b x y. R a x \<Longrightarrow> R b y \<Longrightarrow> P a b \<Longrightarrow> Q x y"
  shows "sorted_wrt Q xs"
  unfolding sorted_wrt_iff_nth_less
proof (intro allI impI)
  fix i j
  assume ij: "i < j" "j < length xs"
  from assms(1) have len: "length ys = length xs" and nth: "\<And>k. k < length xs \<Longrightarrow> R (ys ! k) (xs ! k)"
    by (simp_all add: list_all2_conv_all_nth)
  from ij len assms(2) have "P (ys ! i) (ys ! j)"
    by (simp add: sorted_wrt_iff_nth_less)
  moreover from ij have "R (ys ! i) (xs ! i)" "R (ys ! j) (xs ! j)"
    by (simp_all add: nth)
  ultimately show "Q (xs ! i) (xs ! j)"
    by (rule assms(3) [rotated 2])
qed

lemma POST_unfold:
  assumes "caller_identity ctx = Some (uid, tid)"
  shows "POST ctx body new_id now st =
     (if body = JNull then (ServerError ''Failed to create preset'', st)
      else if \<not> truthy (get_prop body ''name'') \<or> \<not> truthy (get_prop body ''filterConfig'')
      then (BadRequest ''Missing required fields: name, filterConfig'', st)
      else
        (case prisma_findFirst st (name_where tid uid (the_value (get_prop body ''name''))) of
           None \<Rightarrow> (ServerError ''Failed to create preset'', st)
         | Some (existing, st1) \<Rightarrow>
             (case existing of
                Some e \<Rightarrow> (Conflict ''Preset with this name already exists'', st1)
              | None \<Rightarrow>
                  (case prisma_create st1 (data_of tid uid body) new_id now of
                     None \<Rightarrow> (ServerError ''Failed to create preset'', st1)
                   | Some (preset, st2) \<Rightarrow>
                       (case JSON_parse (string_of (filterConfig preset)) of
                          None \<Rightarrow> (ServerError ''Failed to create preset'', st2)
                        | Some v \<Rightarrow> (Created (preset\<lparr>filterConfig := v\<rparr>), st2))))))"
  unfolding POST_def Let_def data_of_def name_where_def using assms by simp

lemma POST_unauthorized: "caller_identity ctx = None \<Longrightarrow> POST ctx body new_id now st = (Unauthorized, st)"
  by (simp add: POST_def)

lemma GET_unauthorized: "caller_identity ctx = None \<Longrightarrow> GET ctx sp st = (Unauthorized, st)"
  by (simp add: GET_def)

lemma matches_name_where:
  "matches (name_where tid uid (JStr nm)) p \<longleftrightarrow> tenantId p = tid \<and> name p = nm \<and> createdBy p = uid"
  by (auto simp: matches_def name_where_def)

lemma valid_name_where: "valid_where (name_where tid uid nm) = is_string nm"
  by (simp add: valid_where_def name_where_def)

text \<open>The two store calls of a create, as equations on their results.\<close>

lemma prisma_findFirst_result:
  "prisma_findFirst st w = Some (found, st1) \<longleftrightarrow>
     valid_where w \<and> found = find (matches w) (filter_presets st)
     \<and> st1 = st\<lparr>queries := queries st @ [FindFirst w]\<rparr>"
  by (auto simp: prisma_findFirst_def)

lemma prisma_create_result:
  "prisma_create st d new_id now = Some (preset, st2) \<longleftrightarrow>
     valid_data d
     \<and> preset = filter_preset.extend (new_row d new_id now)
                  \<lparr> creator = find_creator st (createdBy (new_row d new_id now)) \<rparr>
     \<and> st2 = st\<lparr>filter_presets := filter_presets st @ [new_row d new_id now],
                 queries := queries st @ [Create d]\<rparr>"
  by (auto simp: prisma_create_def Let_def)

lemma filterConfig_extend: "filterConfig (filter_preset.extend row m) = filterConfig row"
  by (simp add: filter_preset.defs)

lemma filterConfig_new_row: "filterConfig (new_row d new_id now) = data_filterConfig d"
  by (simp add: new_row_def)

lemma data_filterConfig_data_of:
  "data_filterConfig (data_of tid uid body) = JStr (JSON_stringify (the_value (get_prop body ''filterConfig'')))"
  by (simp add: data_of_def)

lemma find_creator_queries: "find_creator (st\<lparr>queries := q\<rparr>) uid = find_creator st uid"
  by (simp add: find_creator_def)

text \<open>What a successful create has done.\<close>

lemma POST_Created:
  assumes "POST ctx body new_id now st = (Created r, st')"
  shows "\<exists>uid tid v. caller_identity ctx = Some (uid, tid)
     \<and> truthy (get_prop body ''name'') \<and> truthy (get_prop body ''filterConfig'')
     \<and> valid_data (data_of tid uid body)
     \<and> JSON_parse (JSON_stringify (the_value (get_prop body ''filterConfig''))) = Some v
     \<and> r = (filter_preset.extend (new_row (data_of tid uid body) new_id now)
              \<lparr> creator = find_creator st (createdBy (new_row (data_of tid uid body) new_id now)) \<rparr>)
            \<lparr>filterConfig := v\<rparr>
     \<and> st' = st\<lparr>filter_presets := filter_presets st @ [new_row (data_of tid uid body) new_id now],
               queries := queries st @ [FindFirst (name_where tid uid (the_value (get_prop body ''name''))),
                                        Create (data_of tid uid body)]\<rparr>"
proof (cases "caller_identity ctx")
  case None
  with assms show ?thesis by (simp add: POST_unauthorized)
next
  case (Some a)
  then obtain uid tid where id: "caller_identity ctx = Some (uid, tid)" by (cases a) auto
  let ?w = "name_where tid uid (the_value (get_prop body ''name''))"
  let ?d = "data_of tid uid body"
  from assms have valid: "truthy (get_prop body ''name'')" "truthy (get_prop body ''filterConfig'')"
    unfolding POST_unfold [OF id] by (auto split: if_splits)
  with assms obtain st1 where first: "prisma_findFirst st ?w = Some (None, st1)"
    unfolding POST_unfold [OF id] by (auto split: if_splits option.splits)
  with assms valid obtain preset st2 where create: "prisma_create st1 ?d new_id now = Some (preset, st2)"
    unfolding POST_unfold [OF id] by (auto split: if_splits option.splits)
  with assms valid first obtain v where
    parse: "JSON_parse (string_of (filterConfig preset)) = Some v"
    and r: "r = preset\<lparr>filterConfig := v\<rparr>" and st': "st' = st2"
    unfolding POST_unfold [OF id] by (auto split: if_splits option.splits)
  from first have st1: "st1 = st\<lparr>queries := queries st @ [FindFirst ?w]\<rparr>"
    by (simp add: prisma_findFirst_result)
  from create have d: "valid_data ?d"
    and preset: "preset = filter_preset.extend (new_row ?d new_id now)
                  \<lparr> creator = find_creator st1 (createdBy (new_row ?d new_id now)) \<rparr>"
    and st2: "st2 = st1\<lparr>filter_presets := filter_presets st1 @ [new_row ?d new_id now],
                 queries := queries st1 @ [Create ?d]\<rparr>"
    by (simp_all add: prisma_create_result)
  from parse have "JSON_parse (JSON_stringify (the_value (get_prop body ''filterConfig''))) = Some v"
    by (simp add: preset filterConfig_extend filterConfig_new_row data_filterConfig_data_of)
  moreover from r preset have "r = (filter_preset.extend (new_row ?d new_id now)
              \<lparr> creator = find_creator st (createdBy (new_row ?d new_id now)) \<rparr>)
            \<lparr>filterConfig := v\<rparr>"
    by (simp add: st1 find_creator_queries)
  moreover from st' st2 have "st' = st\<lparr>filter_presets := filter_presets st @ [new_row ?d new_id now],
               queries := queries st @ [FindFirst ?w, Create ?d]\<rparr>"
    by (simp add: st1)
  ultimately show ?thesis
    using id valid d by blast
qed

lemma optional_text_or_null: "optional_text x \<Longrightarrow> is_string_or_null (or_else x JNull)"
  by (auto simp: optional_text_def or_else_def split: option.splits json.splits)

lemma optional_text_or_default: "optional_text x \<Longrightarrow> is_string (or_else x (JStr d))"
  by (auto simp: optional_text_def or_else_def split: option.splits json.splits)

lemma well_typed_payload_name:
  "well_typed_payload body \<Longrightarrow> \<exists>nm. get_prop body ''name'' = Some (JStr nm) \<and> nm \<noteq> []"
  by (auto simp: well_typed_payload_def split: option.splits json.splits)

lemma well_typed_payload_filterConfig:
  "well_typed_payload body \<Longrightarrow>
     \<exists>fc. get_prop body ''filterConfig'' = Some fc \<and> truthy (Some fc) \<and> distinct_keys fc
       \<and> optional_text (get_prop fc ''logic'')"
  by (auto simp: well_typed_payload_def split: option.splits)

lemma valid_data_data_of:
  assumes "well_typed_payload body"
  shows "valid_data (data_of tid uid body)"
proof -
  from well_typed_payload_name [OF assms] obtain nm where "get_prop body ''name'' = Some (JStr nm)"
    by blast
  moreover from well_typed_payload_filterConfig [OF assms] obtain fc where
    "get_prop body ''filterConfig'' = Some fc" "optional_text (get_prop fc ''logic'')"
    by blast
  moreover from assms have "optional_text (get_prop body ''description'')"
    "optional_text (get_prop body ''icon'')" "optional_text (get_prop body ''color'')"
    "is_string (with_default (get_prop body ''entityType'') (JStr ''users''))"
    "is_boolean (with_default (get_prop body ''isPublic'') (JBool False))"
    by (auto simp: well_typed_payload_def with_default_def split: option.splits)
  ultimately show ?thesis
    by (simp add: valid_data_def data_of_def optional_text_or_null optional_text_or_default)
qed

lemma POST_succeeds:
  assumes id: "caller_identity ctx = Some (uid, tid)"
    and wt: "well_typed_payload body"
    and nm: "get_prop body ''name'' = Some (JStr nm)"
    and fc: "get_prop body ''filterConfig'' = Some fc"
    and fresh: "\<not> (\<exists>p \<in> set (filter_presets st). tenantId p = tid \<and> name p = nm \<and> createdBy p = uid)"
  shows "POST ctx body new_id now st =
    (Created ((filter_preset.extend (new_row (data_of tid uid body) new_id now)
              \<lparr> creator = find_creator st (createdBy (new_row (data_of tid uid body) new_id now)) \<rparr>)
            \<lparr>filterConfig := json_normal fc\<rparr>),
     st\<lparr>filter_presets := filter_presets st @ [new_row (data_of tid uid body) new_id now],
        queries := queries st @ [FindFirst (name_where tid uid (JStr nm)), Create (data_of tid uid body)]\<rparr>)"
proof -
  let ?d = "data_of tid uid body"
  let ?st1 = "st\<lparr>queries := queries st @ [FindFirst (name_where tid uid (JStr nm))]\<rparr>"
  from well_typed_payload_name [OF wt] nm have tnm: "truthy (Some (JStr nm))" by auto
  from well_typed_payload_filterConfig [OF wt] fc have tfc: "truthy (Some fc)" and dk: "distinct_keys fc"
    by auto
  from nm have body: "body \<noteq> JNull" by auto
  from fresh have "find (matches (name_where tid uid (JStr nm))) (filter_presets st) = None"
    by (auto simp: find_None_iff matches_name_where)
  then have first: "prisma_findFirst st (name_where tid uid (JStr nm)) = Some (None, ?st1)"
    by (simp add: prisma_findFirst_result valid_name_where)
  have create: "prisma_create ?st1 ?d new_id now =
    Some (filter_preset.extend (new_row ?d new_id now)
            \<lparr> creator = find_creator st (createdBy (new_row ?d new_id now)) \<rparr>,
          ?st1\<lparr>filter_presets := filter_presets ?st1 @ [new_row ?d new_id now],
               queries := queries ?st1 @ [Create ?d]\<rparr>)"
    by (simp only: prisma_create_result valid_data_data_of [OF wt] find_creator_queries simp_thms)
  have parse: "JSON_parse (string_of (filterConfig (filter_preset.extend (new_row ?d new_id now)
            \<lparr> creator = find_creator st (createdBy (new_row ?d new_id now)) \<rparr>)))
      = Some (json_normal fc)"
    by (simp add: filterConfig_extend filterConfig_new_row data_filterConfig_data_of fc
        JSON_parse_stringify [OF dk])
  show ?thesis
    unfolding POST_unfold [OF id]
    by (simp add: body nm fc tnm tfc first create parse del: truthy.simps)
qed

lemma new_row_fields:
  "id' (new_row d new_id now) = new_id"
  "tenantId (new_row d new_id now) = string_of (data_tenantId d)"
  "name (new_row d new_id now) = string_of (data_name d)"
  "createdBy (new_row d new_id now) = string_of (data_createdBy d)"
  "filterLogic (new_row d new_id now) = string_of (data_filterLogic d)"
  "description (new_row d new_id now) = string_option_of (data_description d)"
  "icon (new_row d new_id now) = string_option_of (data_icon d)"
  "color (new_row d new_id now) = string_option_of (data_color d)"
  by (simp_all add: new_row_def)

lemma created_fields:
  "id' ((filter_preset.extend row m)\<lparr>filterConfig := v\<rparr>) = id' row"
  "tenantId ((filter_preset.extend row m)\<lparr>filterConfig := v\<rparr>) = tenantId row"
  "name ((filter_preset.extend row m)\<lparr>filterConfig := v\<rparr>) = name row"
  "createdBy ((filter_preset.extend row m)\<lparr>filterConfig := v\<rparr>) = createdBy row"
  "filterLogic ((filter_preset.extend row m)\<lparr>filterConfig := v\<rparr>) = filterLogic row"
  "description ((filter_preset.extend row m)\<lparr>filterConfig := v\<rparr>) = description row"
  "icon ((filter_preset.extend row m)\<lparr>filterConfig := v\<rparr>) = icon row"
  "color ((filter_preset.extend row m)\<lparr>filterConfig := v\<rparr>) = color row"
  "filterConfig ((filter_preset.extend row m)\<lparr>filterConfig := v\<rparr>) = v"
  by (simp_all add: filter_preset.defs)

lemma or_else_falsy: "\<not> truthy x \<Longrightarrow> or_else x d = d"
  by (cases x) (simp_all add: or_else_def)

lemma or_else_truthy_string: "x = Some (JStr s) \<Longrightarrow> s \<noteq> [] \<Longrightarrow> or_else x d = JStr s"
  by (simp add: or_else_def)

lemma truthy_string:
  assumes "truthy x" "is_string (or_else x d)"
  shows "\<exists>s. x = Some (JStr s) \<and> s \<noteq> []"
proof -
  from assms(1) obtain v where x: "x = Some v" by (cases x) auto
  with assms have "is_string v" by (simp add: or_else_def)
  then obtain s where "v = JStr s" by (cases v) auto
  with x assms(1) show ?thesis by simp
qed

lemma data_of_fields:
  "string_of (data_tenantId (data_of tid uid body)) = tid"
  "string_of (data_createdBy (data_of tid uid body)) = uid"
  "data_name (data_of tid uid body) = the_value (get_prop body ''name'')"
  by (simp_all add: data_of_def)


section \<open>The claims\<close>

subsection \<open>Listing\<close>

text \<open>
  Claim C1. A list call of an identified caller sends one query, whose predicate is the
  visibility policy \<open>visible_to\<close> in its order of precedence (public only when the \<open>isPublic\<close>
  filter is on, else public or own when \<open>includeShared\<close> is on, else own only), always within
  the tenant and the entity type; what the call returns on success are the rows of the table
  that satisfy that predicate, in the order of the query.
\<close>

theorem list_visibility_precedence:
  assumes "uid \<noteq> []" "tid \<noteq> []"
  shows "\<exists>w. queries (snd (GET (caller uid tid) searchParams st)) = queries st @ [FindMany w orderBy]
     \<and> (\<forall>p. matches w p =
           visible_to tid uid (query_entityType searchParams) (query_isPublic searchParams)
             (query_includeShared searchParams) p)
     \<and> (\<forall>listed. fst (GET (caller uid tid) searchParams st) = Ok listed \<longrightarrow>
           list_all2 (\<lambda>p x. deserialize (select_listing st p) = Some x)
             (sort_key (order_key orderBy) (filter (matches w) (filter_presets st))) listed)"
proof -
  note id = caller_identity_caller [OF assms]
  let ?w = "whereClause tid uid (query_entityType searchParams) (query_isPublic searchParams)
     (query_includeShared searchParams)"
  have "queries (snd (GET (caller uid tid) searchParams st)) = queries st @ [FindMany ?w orderBy]"
    by (simp add: GET_authorized [OF id])
  moreover have "\<forall>p. matches ?w p =
      visible_to tid uid (query_entityType searchParams) (query_isPublic searchParams)
        (query_includeShared searchParams) p"
    by (simp add: matches_whereClause)
  moreover have "\<forall>listed. fst (GET (caller uid tid) searchParams st) = Ok listed \<longrightarrow>
      list_all2 (\<lambda>p x. deserialize (select_listing st p) = Some x)
        (sort_key (order_key orderBy) (filter (matches ?w) (filter_presets st))) listed"
    using GET_Ok [of "caller uid tid" searchParams st] by (auto simp: id)
  ultimately show ?thesis by blast
qed

theorem list_visibility_precedence_witness:
  "''u1'' \<noteq> [] \<and> ''t1'' \<noteq> []
   \<and> (\<exists>w. queries (snd (GET (caller ''u1'' ''t1'') [(''includeShared'', ''false'')] example_store))
            = queries example_store @ [FindMany w orderBy]
     \<and> (\<forall>p. matches w p =
           visible_to ''t1'' ''u1'' (query_entityType [(''includeShared'', ''false'')])
             (query_isPublic [(''includeShared'', ''false'')])
             (query_includeShared [(''includeShared'', ''false'')]) p)
     \<and> (\<forall>listed. fst (GET (caller ''u1'' ''t1'') [(''includeShared'', ''false'')] example_store) = Ok listed \<longrightarrow>
           list_all2 (\<lambda>p x. deserialize (select_listing example_store p) = Some x)
             (sort_key (order_key orderBy) (filter (matches w) (filter_presets example_store))) listed))
   \<and> map sel_id (listed_of (fst (GET (caller ''u1'' ''t1'') [(''includeShared'', ''false'')] example_store)))
       = [''p5'', ''p1'']
   \<and> map sel_id (listed_of (fst (GET (caller ''u1'' ''t1'') [] example_store))) = [''p2'', ''p5'', ''p1'']
   \<and> map sel_id (listed_of (fst (GET (caller ''u1'' ''t1'')
          [(''isPublic'', ''true''), (''includeShared'', ''false'')] example_store))) = [''p2'']"
proof -
  have a: "''u1'' \<noteq> []" and b: "''t1'' \<noteq> []" by simp_all
  have "map sel_id (listed_of (fst (GET (caller ''u1'' ''t1'') [(''includeShared'', ''false'')] example_store)))
       = [''p5'', ''p1'']"
    by code_simp
  moreover have "map sel_id (listed_of (fst (GET (caller ''u1'' ''t1'') [] example_store))) = [''p2'', ''p5'', ''p1'']"
    by code_simp
  moreover have "map sel_id (listed_of (fst (GET (caller ''u1'' ''t1'')
          [(''isPublic'', ''true''), (''includeShared'', ''false'')] example_store))) = [''p2'']"
    by code_simp
  ultimately show ?thesis
    using a b list_visibility_precedence [OF a b, of "[(''includeShared'', ''false'')]" example_store]
    by blast
qed

text \<open>
  Claim C2. Whatever the visibility branch, the query of a list call matches only rows whose
  tenant is the tenant of the caller and whose entity type is the requested one, and every
  preset of the response is such a row of the table.
\<close>

theorem list_tenant_scoped:
  assumes "uid \<noteq> []" "tid \<noteq> []"
  shows "\<exists>w. queries (snd (GET (caller uid tid) searchParams st)) = queries st @ [FindMany w orderBy]
     \<and> (\<forall>p. matches w p \<longrightarrow> tenantId p = tid \<and> entityType p = query_entityType searchParams)
     \<and> (\<forall>listed. fst (GET (caller uid tid) searchParams st) = Ok listed \<longrightarrow>
          (\<exists>rows. list_all2 (\<lambda>p x. deserialize (select_listing st p) = Some x) rows listed
             \<and> (\<forall>p \<in> set rows. p \<in> set (filter_presets st) \<and> tenantId p = tid
                   \<and> entityType p = query_entityType searchParams)))"
proof -
  note id = caller_identity_caller [OF assms]
  let ?w = "whereClause tid uid (query_entityType searchParams) (query_isPublic searchParams)
     (query_includeShared searchParams)"
  have scoped: "tenantId p = tid \<and> entityType p = query_entityType searchParams" if "matches ?w p" for p
    using that by (simp add: matches_whereClause visible_to_def)
  have "queries (snd (GET (caller uid tid) searchParams st)) = queries st @ [FindMany ?w orderBy]"
    by (simp add: GET_authorized [OF id])
  moreover have "\<forall>p. matches ?w p \<longrightarrow> tenantId p = tid \<and> entityType p = query_entityType searchParams"
    using scoped by blast
  moreover have "\<exists>rows. list_all2 (\<lambda>p x. deserialize (select_listing st p) = Some x) rows listed
       \<and> (\<forall>p \<in> set rows. p \<in> set (filter_presets st) \<and> tenantId p = tid
             \<and> entityType p = query_entityType searchParams)"
    if ok: "fst (GET (caller uid tid) searchParams st) = Ok listed" for listed
  proof -
    from GET_Ok [OF ok] id
    have "list_all2 (\<lambda>p x. deserialize (select_listing st p) = Some x)
       (sort_key (order_key orderBy) (filter (matches ?w) (filter_presets st))) listed"
      by simp
    moreover have "\<forall>p \<in> set (sort_key (order_key orderBy) (filter (matches ?w) (filter_presets st))).
        p \<in> set (filter_presets st) \<and> tenantId p = tid \<and> entityType p = query_entityType searchParams"
      using scoped by simp
    ultimately show ?thesis by blast
  qed
  ultimately show ?thesis by blast
qed

theorem list_tenant_scoped_witness:
  "''u1'' \<noteq> [] \<and> ''t1'' \<noteq> []
   \<and> map sel_id (listed_of (fst (GET (caller ''u1'' ''t1'') [] example_store))) = [''p2'', ''p5'', ''p1'']
   \<and> (\<exists>w. queries (snd (GET (caller ''u1'' ''t1'') [] example_store)) = queries example_store @ [FindMany w orderBy]
     \<and> (\<forall>p. matches w p \<longrightarrow> tenantId p = ''t1'' \<and> entityType p = query_entityType [])
     \<and> (\<forall>listed. fst (GET (caller ''u1'' ''t1'') [] example_store) = Ok listed \<longrightarrow>
          (\<exists>rows. list_all2 (\<lambda>p x. deserialize (select_listing example_store p) = Some x) rows listed
             \<and> (\<forall>p \<in> set rows. p \<in> set (filter_presets example_store) \<and> tenantId p = ''t1''
                   \<and> entityType p = query_entityType []))))"
proof -
  have a: "''u1'' \<noteq> []" and b: "''t1'' \<noteq> []" by simp_all
  have "map sel_id (listed_of (fst (GET (caller ''u1'' ''t1'') [] example_store))) = [''p2'', ''p5'', ''p1'']"
    by code_simp
  with a b list_tenant_scoped [OF a b, of "[]" example_store] show ?thesis by blast
qed

text \<open>
  Claim C5. The sequence a list call returns is sorted by \<open>isDefault\<close> descending, then
  \<open>usageCount\<close> descending, then \<open>createdAt\<close> descending (the most recently created first among
  ties): each preset stands in the relation \<open>listed_before\<close> to every later one.
\<close>

theorem list_sorted:
  assumes "fst (GET ctx searchParams st) = Ok listed"
  shows "sorted_wrt listed_before listed"
proof -
  from GET_Ok [OF assms] obtain rows where
    rows: "list_all2 (\<lambda>p x. deserialize (select_listing st p) = Some x) rows listed"
    and sorted: "sorted (map (order_key orderBy) rows)"
    by (auto simp: sorted_sort_key)
  from sorted have "sorted_wrt (\<lambda>p q. order_key orderBy p \<le> order_key orderBy q) rows"
    by (simp add: sorted_map)
  from sorted_wrt_list_all2 [OF rows this] show ?thesis
    by (blast intro: order_key_le_listed_before)
qed

theorem list_sorted_witness:
  "fst (GET (caller ''u1'' ''t1'') [] example_store)
     = Ok (listed_of (fst (GET (caller ''u1'' ''t1'') [] example_store)))
   \<and> map (\<lambda>x. (sel_isDefault x, sel_usageCount x, sel_createdAt x))
        (listed_of (fst (GET (caller ''u1'' ''t1'') [] example_store)))
      = [(True, 1, 50), (False, 5, 200), (False, 5, 100)]
   \<and> sorted_wrt listed_before (listed_of (fst (GET (caller ''u1'' ''t1'') [] example_store)))"
proof -
  have h: "fst (GET (caller ''u1'' ''t1'') [] example_store)
     = Ok (listed_of (fst (GET (caller ''u1'' ''t1'') [] example_store)))"
    by code_simp
  have "map (\<lambda>x. (sel_isDefault x, sel_usageCount x, sel_createdAt x))
        (listed_of (fst (GET (caller ''u1'' ''t1'') [] example_store)))
      = [(True, 1, 50), (False, 5, 200), (False, 5, 100)]"
    by code_simp
  with h list_sorted [OF h] show ?thesis by blast
qed

text \<open>
  Claim C9. The parameters of a list request are decoded so: \<open>entityType\<close> is \<open>users\<close> when the
  parameter is absent (and when it is empty), the \<open>isPublic\<close> filter is on exactly when the
  parameter is the text \<open>true\<close>, and \<open>includeShared\<close> is on unless the parameter is the text
  \<open>false\<close>; the query of an identified caller is built from these three values.
\<close>

theorem list_query_decoding:
  "(map_of searchParams ''entityType'' = None \<longrightarrow> query_entityType searchParams = ''users'')
   \<and> (\<forall>v. map_of searchParams ''entityType'' = Some v \<and> v \<noteq> [] \<longrightarrow> query_entityType searchParams = v)
   \<and> (query_isPublic searchParams \<longleftrightarrow> map_of searchParams ''isPublic'' = Some ''true'')
   \<and> (query_includeShared searchParams \<longleftrightarrow> map_of searchParams ''includeShared'' \<noteq> Some ''false'')
   \<and> (uid \<noteq> [] \<and> tid \<noteq> [] \<longrightarrow>
        queries (snd (GET (caller uid tid) searchParams st)) = queries st @
          [FindMany
             (whereClause tid uid
                (case map_of searchParams ''entityType'' of
                   None \<Rightarrow> ''users'' | Some v \<Rightarrow> if v = [] then ''users'' else v)
                (map_of searchParams ''isPublic'' = Some ''true'')
                (map_of searchParams ''includeShared'' \<noteq> Some ''false''))
             orderBy])"
proof -
  have "queries (snd (GET (caller uid tid) searchParams st)) = queries st @
          [FindMany
             (whereClause tid uid
                (case map_of searchParams ''entityType'' of
                   None \<Rightarrow> ''users'' | Some v \<Rightarrow> if v = [] then ''users'' else v)
                (map_of searchParams ''isPublic'' = Some ''true'')
                (map_of searchParams ''includeShared'' \<noteq> Some ''false''))
             orderBy]"
    if "uid \<noteq> []" "tid \<noteq> []"
    by (simp add: GET_authorized [OF caller_identity_caller [OF that]]
        query_entityType_def query_isPublic_def query_includeShared_def searchParams_get_def)
  then show ?thesis
    by (simp add: query_entityType_def query_isPublic_def query_includeShared_def searchParams_get_def)
qed

theorem list_query_decoding_witness:
  "map_of [(''isPublic'', ''TRUE''), (''includeShared'', ''no'')] ''entityType'' = None
   \<and> query_entityType [(''isPublic'', ''TRUE''), (''includeShared'', ''no'')] = ''users''
   \<and> map_of [(''entityType'', ''clients'')] ''entityType'' = Some ''clients'' \<and> ''clients'' \<noteq> []
   \<and> query_entityType [(''entityType'', ''clients'')] = ''clients''
   \<and> \<not> query_isPublic [(''isPublic'', ''TRUE''), (''includeShared'', ''no'')]
   \<and> query_includeShared [(''isPublic'', ''TRUE''), (''includeShared'', ''no'')]
   \<and> ''u1'' \<noteq> [] \<and> ''t1'' \<noteq> []
   \<and> queries (snd (GET (caller ''u1'' ''t1'') [(''isPublic'', ''TRUE''), (''includeShared'', ''no'')] example_store))
      = queries example_store @ [FindMany (whereClause ''t1'' ''u1'' ''users'' False True) orderBy]"
proof -
  have a: "''u1'' \<noteq> []" and b: "''t1'' \<noteq> []" by simp_all
  have c: "map_of [(''isPublic'', ''TRUE''), (''includeShared'', ''no'')] ''entityType'' = None"
    and d: "map_of [(''entityType'', ''clients'')] ''entityType'' = Some ''clients'' \<and> ''clients'' \<noteq> []"
    by simp_all
  from list_query_decoding [of "[(''isPublic'', ''TRUE''), (''includeShared'', ''no'')]" "''u1''" "''t1''" example_store]
    a b c
  have "query_entityType [(''isPublic'', ''TRUE''), (''includeShared'', ''no'')] = ''users''
    \<and> \<not> query_isPublic [(''isPublic'', ''TRUE''), (''includeShared'', ''no'')]
    \<and> query_includeShared [(''isPublic'', ''TRUE''), (''includeShared'', ''no'')]
    \<and> queries (snd (GET (caller ''u1'' ''t1'') [(''isPublic'', ''TRUE''), (''includeShared'', ''no'')] example_store))
      = queries example_store @ [FindMany (whereClause ''t1'' ''u1'' ''users'' False True) orderBy]"
    by simp
  moreover from list_query_decoding [of "[(''entityType'', ''clients'')]" "''u1''" "''t1''" example_store] d
  have "query_entityType [(''entityType'', ''clients'')] = ''clients''"
    by blast
  ultimately show ?thesis using a b c d by blast
qed

subsection \<open>Both handlers\<close>

text \<open>
  Claim C4. A request, list or create, whose caller context lacks a user id or a tenant id
  (the context, the field or its text is missing) is answered \<open>Unauthorized\<close>, and the store is
  the one before: no row is written and no query is sent.
\<close>

theorem unauthorized_without_identity:
  assumes "ctx = None \<or> (\<exists>c. ctx = Some c \<and>
      (ctx_userId c = None \<or> ctx_userId c = Some [] \<or> ctx_tenantId c = None \<or> ctx_tenantId c = Some []))"
  shows "GET ctx searchParams st = (Unauthorized, st) \<and> POST ctx body new_id now st = (Unauthorized, st)"
proof -
  from assms have "caller_identity ctx = None"
    by (simp only: caller_identity_None_iff)
  then show ?thesis
    by (simp add: GET_unauthorized POST_unauthorized)
qed

theorem unauthorized_without_identity_witness:
  "(Some \<lparr> ctx_userId = Some ''u1'', ctx_tenantId = None \<rparr> = None
     \<or> (\<exists>c. Some \<lparr> ctx_userId = Some ''u1'', ctx_tenantId = None \<rparr> = Some c \<and>
      (ctx_userId c = None \<or> ctx_userId c = Some [] \<or> ctx_tenantId c = None \<or> ctx_tenantId c = Some [])))
   \<and> GET (Some \<lparr> ctx_userId = Some ''u1'', ctx_tenantId = None \<rparr>) [] example_store
       = (Unauthorized, example_store)
   \<and> POST (Some \<lparr> ctx_userId = Some ''u1'', ctx_tenantId = None \<rparr>) (example_body ''New'') ''p6'' 300 example_store
       = (Unauthorized, example_store)"
proof -
  have h: "Some \<lparr> ctx_userId = Some ''u1'', ctx_tenantId = None \<rparr> = None
     \<or> (\<exists>c. Some \<lparr> ctx_userId = Some ''u1'', ctx_tenantId = None \<rparr> = Some c \<and>
      (ctx_userId c = None \<or> ctx_userId c = Some [] \<or> ctx_tenantId c = None \<or> ctx_tenantId c = Some []))"
    by simp
  from h unauthorized_without_identity [OF h] show ?thesis by blast
qed

subsection \<open>Creating\<close>



text \<open>
  Claim C3. For an identified caller and a payload that passes the validation: when the
  table holds a preset of this tenant, this owner and this name, the create is answered
  \<open>Conflict\<close>, the only query sent is the uniqueness check and the table is unchanged. When two
  different users of one tenant create a preset of the same name, neither having one before,
  both creates succeed, the second although the first user's preset of that name is in the
  table: the name is unique per owner, not per tenant.
\<close>

theorem create_name_unique_per_owner:
  assumes "tid \<noteq> []" "u1 \<noteq> []" "u2 \<noteq> []"
    and "get_prop b1 ''name'' = Some (JStr nm)" "get_prop b2 ''name'' = Some (JStr nm)"
  shows "(nm \<noteq> [] \<and> truthy (get_prop b1 ''filterConfig'')
          \<and> (\<exists>p \<in> set (filter_presets st). tenantId p = tid \<and> createdBy p = u1 \<and> name p = nm) \<longrightarrow>
            POST (caller u1 tid) b1 id1 now1 st =
              (Conflict ''Preset with this name already exists'',
               st\<lparr>queries := queries st @
                  [FindFirst [Eq TenantId (JStr tid), Eq Name (JStr nm), Eq CreatedBy (JStr u1)]]\<rparr>))
       \<and> (u1 \<noteq> u2 \<and> well_typed_payload b1 \<and> well_typed_payload b2
          \<and> \<not> (\<exists>p \<in> set (filter_presets st). tenantId p = tid \<and> name p = nm
                   \<and> (createdBy p = u1 \<or> createdBy p = u2)) \<longrightarrow>
            (\<exists>r1 st1 r2 st2.
               POST (caller u1 tid) b1 id1 now1 st = (Created r1, st1)
               \<and> POST (caller u2 tid) b2 id2 now2 st1 = (Created r2, st2)
               \<and> name r1 = nm \<and> tenantId r1 = tid \<and> createdBy r1 = u1
               \<and> name r2 = nm \<and> tenantId r2 = tid \<and> createdBy r2 = u2
               \<and> map (\<lambda>p. (tenantId p, createdBy p, name p)) (filter_presets st2) =
                   map (\<lambda>p. (tenantId p, createdBy p, name p)) (filter_presets st)
                   @ [(tid, u1, nm), (tid, u2, nm)]))"
proof (intro conjI impI)
  note id1 = caller_identity_caller [OF assms(2,1)]
  assume dup: "nm \<noteq> [] \<and> truthy (get_prop b1 ''filterConfig'')
          \<and> (\<exists>p \<in> set (filter_presets st). tenantId p = tid \<and> createdBy p = u1 \<and> name p = nm)"
  let ?w = "name_where tid u1 (JStr nm)"
  from dup have "find (matches ?w) (filter_presets st) \<noteq> None"
    by (auto simp: find_None_iff matches_name_where)
  then obtain e where "find (matches ?w) (filter_presets st) = Some e" by auto
  then have first: "prisma_findFirst st ?w = Some (Some e, st\<lparr>queries := queries st @ [FindFirst ?w]\<rparr>)"
    by (simp add: prisma_findFirst_result valid_name_where)
  from assms(4) have "b1 \<noteq> JNull" by auto
  moreover from dup assms(4) have "truthy (get_prop b1 ''name'')" by simp
  ultimately show "POST (caller u1 tid) b1 id1 now1 st =
      (Conflict ''Preset with this name already exists'',
       st\<lparr>queries := queries st @
          [FindFirst [Eq TenantId (JStr tid), Eq Name (JStr nm), Eq CreatedBy (JStr u1)]]\<rparr>)"
    unfolding POST_unfold [OF id1] using dup first
    by (simp add: assms(4) name_where_def del: truthy.simps)
next
  note id1 = caller_identity_caller [OF assms(2,1)]
  note id2 = caller_identity_caller [OF assms(3,1)]
  assume free: "u1 \<noteq> u2 \<and> well_typed_payload b1 \<and> well_typed_payload b2
          \<and> \<not> (\<exists>p \<in> set (filter_presets st). tenantId p = tid \<and> name p = nm
                   \<and> (createdBy p = u1 \<or> createdBy p = u2))"
  let ?row1 = "new_row (data_of tid u1 b1) id1 now1"
  let ?row2 = "new_row (data_of tid u2 b2) id2 now2"
  let ?st1 = "st\<lparr>filter_presets := filter_presets st @ [?row1],
        queries := queries st @ [FindFirst (name_where tid u1 (JStr nm)), Create (data_of tid u1 b1)]\<rparr>"
  from free obtain fc1 fc2 where fc: "get_prop b1 ''filterConfig'' = Some fc1"
    "get_prop b2 ''filterConfig'' = Some fc2"
    using well_typed_payload_filterConfig by blast
  have row1: "tenantId ?row1 = tid" "createdBy ?row1 = u1" "name ?row1 = nm"
    by (simp_all add: new_row_fields data_of_fields assms(4))
  have row2: "tenantId ?row2 = tid" "createdBy ?row2 = u2" "name ?row2 = nm"
    by (simp_all add: new_row_fields data_of_fields assms(5))
  from free have fresh1: "\<not> (\<exists>p \<in> set (filter_presets st). tenantId p = tid \<and> name p = nm \<and> createdBy p = u1)"
    by blast
  from free row1 have fresh2: "\<not> (\<exists>p \<in> set (filter_presets ?st1). tenantId p = tid \<and> name p = nm \<and> createdBy p = u2)"
    by auto
  from free have wt: "well_typed_payload b1" "well_typed_payload b2" by simp_all
  note post1 = POST_succeeds [OF id1 wt(1) assms(4) fc(1) fresh1, of id1 now1]
  note post2 = POST_succeeds [OF id2 wt(2) assms(5) fc(2) fresh2, of id2 now2]
  show "\<exists>r1 st1 r2 st2.
       POST (caller u1 tid) b1 id1 now1 st = (Created r1, st1)
       \<and> POST (caller u2 tid) b2 id2 now2 st1 = (Created r2, st2)
       \<and> name r1 = nm \<and> tenantId r1 = tid \<and> createdBy r1 = u1
       \<and> name r2 = nm \<and> tenantId r2 = tid \<and> createdBy r2 = u2
       \<and> map (\<lambda>p. (tenantId p, createdBy p, name p)) (filter_presets st2) =
           map (\<lambda>p. (tenantId p, createdBy p, name p)) (filter_presets st)
           @ [(tid, u1, nm), (tid, u2, nm)]"
    by (intro exI conjI, rule post1, rule post2) (simp_all add: created_fields row1 row2)
qed

theorem create_name_unique_per_owner_witness:
  "''t1'' \<noteq> [] \<and> ''u1'' \<noteq> [] \<and> ''u2'' \<noteq> []
   \<and> get_prop (example_body ''Mine'') ''name'' = Some (JStr ''Mine'')
   \<and> (''Mine'' \<noteq> [] \<and> truthy (get_prop (example_body ''Mine'') ''filterConfig'')
       \<and> (\<exists>p \<in> set (filter_presets example_store). tenantId p = ''t1'' \<and> createdBy p = ''u1'' \<and> name p = ''Mine''))
   \<and> POST (caller ''u1'' ''t1'') (example_body ''Mine'') ''p6'' 300 example_store =
        (Conflict ''Preset with this name already exists'',
         example_store\<lparr>queries := queries example_store @
            [FindFirst [Eq TenantId (JStr ''t1''), Eq Name (JStr ''Mine''), Eq CreatedBy (JStr ''u1'')]]\<rparr>)
   \<and> get_prop (example_body ''Fresh'') ''name'' = Some (JStr ''Fresh'')
   \<and> (''u1'' \<noteq> ''u2'' \<and> well_typed_payload (example_body ''Fresh'') \<and> well_typed_payload (example_body ''Fresh'')
       \<and> \<not> (\<exists>p \<in> set (filter_presets example_store). tenantId p = ''t1'' \<and> name p = ''Fresh''
                \<and> (createdBy p = ''u1'' \<or> createdBy p = ''u2'')))
   \<and> (\<exists>r1 st1 r2 st2.
         POST (caller ''u1'' ''t1'') (example_body ''Fresh'') ''p6'' 300 example_store = (Created r1, st1)
         \<and> POST (caller ''u2'' ''t1'') (example_body ''Fresh'') ''p7'' 301 st1 = (Created r2, st2)
         \<and> name r1 = ''Fresh'' \<and> tenantId r1 = ''t1'' \<and> createdBy r1 = ''u1''
         \<and> name r2 = ''Fresh'' \<and> tenantId r2 = ''t1'' \<and> createdBy r2 = ''u2''
         \<and> map (\<lambda>p. (tenantId p, createdBy p, name p)) (filter_presets st2) =
             map (\<lambda>p. (tenantId p, createdBy p, name p)) (filter_presets example_store)
             @ [(''t1'', ''u1'', ''Fresh''), (''t1'', ''u2'', ''Fresh'')])"
proof -
  have t: "''t1'' \<noteq> []" and u1: "''u1'' \<noteq> []" and u2: "''u2'' \<noteq> []" by simp_all
  have mine: "get_prop (example_body ''Mine'') ''name'' = Some (JStr ''Mine'')"
    by code_simp
  have dup: "''Mine'' \<noteq> [] \<and> truthy (get_prop (example_body ''Mine'') ''filterConfig'')
       \<and> (\<exists>p \<in> set (filter_presets example_store). tenantId p = ''t1'' \<and> createdBy p = ''u1'' \<and> name p = ''Mine'')"
    by code_simp
  have fresh: "get_prop (example_body ''Fresh'') ''name'' = Some (JStr ''Fresh'')"
    by code_simp
  have free: "''u1'' \<noteq> ''u2'' \<and> well_typed_payload (example_body ''Fresh'') \<and> well_typed_payload (example_body ''Fresh'')
       \<and> \<not> (\<exists>p \<in> set (filter_presets example_store). tenantId p = ''t1'' \<and> name p = ''Fresh''
                \<and> (createdBy p = ''u1'' \<or> createdBy p = ''u2''))"
    by code_simp
  from create_name_unique_per_owner [OF t u1 u2 mine mine, of example_store "''p6''" 300] dup
  have conflict: "POST (caller ''u1'' ''t1'') (example_body ''Mine'') ''p6'' 300 example_store =
        (Conflict ''Preset with this name already exists'',
         example_store\<lparr>queries := queries example_store @
            [FindFirst [Eq TenantId (JStr ''t1''), Eq Name (JStr ''Mine''), Eq CreatedBy (JStr ''u1'')]]\<rparr>)"
    by blast
  from create_name_unique_per_owner [OF t u1 u2 fresh fresh, of example_store "''p6''" 300 "''p7''" 301] free
  have both: "\<exists>r1 st1 r2 st2.
         POST (caller ''u1'' ''t1'') (example_body ''Fresh'') ''p6'' 300 example_store = (Created r1, st1)
         \<and> POST (caller ''u2'' ''t1'') (example_body ''Fresh'') ''p7'' 301 st1 = (Created r2, st2)
         \<and> name r1 = ''Fresh'' \<and> tenantId r1 = ''t1'' \<and> createdBy r1 = ''u1''
         \<and> name r2 = ''Fresh'' \<and> tenantId r2 = ''t1'' \<and> createdBy r2 = ''u2''
         \<and> map (\<lambda>p. (tenantId p, createdBy p, name p)) (filter_presets st2) =
             map (\<lambda>p. (tenantId p, createdBy p, name p)) (filter_presets example_store)
             @ [(''t1'', ''u1'', ''Fresh''), (''t1'', ''u2'', ''Fresh'')]"
    by blast
  from t u1 u2 mine dup conflict fresh free both show ?thesis
    by blast
qed




text \<open>
  Claim C8 as stated fails: a \<open>logic\<close> field that is present and empty is not what is
  stored. The create below succeeds with \<open>filterConfig.logic = ""\<close> and stores \<open>AND\<close>.
\<close>

theorem create_filterLogic_present_counterexample:
  "is_created (fst (POST (caller ''u1'' ''t1'') empty_logic_body ''p6'' 300 example_store))
   \<and> get_prop (the_value (get_prop empty_logic_body ''filterConfig'')) ''logic'' = Some (JStr [])
   \<and> filterLogic (last (filter_presets (snd (POST (caller ''u1'' ''t1'') empty_logic_body ''p6'' 300 example_store)))) = ''AND''
   \<and> filterLogic (last (filter_presets (snd (POST (caller ''u1'' ''t1'') empty_logic_body ''p6'' 300 example_store)))) \<noteq> []"
  by code_simp

text \<open>
  Claim C8, amended. After a successful create the stored \<open>filterLogic\<close> (and the one of the
  response) is \<open>filterConfig.logic\<close> when that field is present and truthy, which on success
  means a non-empty string, and \<open>AND\<close> when it is absent or falsy (null, false, 0 or the
  empty string).
\<close>

theorem create_filterLogic:
  assumes "POST ctx body new_id now st = (Created r, st')"
  shows "(\<forall>s. get_prop (the_value (get_prop body ''filterConfig'')) ''logic'' = Some (JStr s) \<and> s \<noteq> [] \<longrightarrow>
            filterLogic r = s \<and> filterLogic (last (filter_presets st')) = s)
       \<and> (\<not> truthy (get_prop (the_value (get_prop body ''filterConfig'')) ''logic'') \<longrightarrow>
            filterLogic r = ''AND'' \<and> filterLogic (last (filter_presets st')) = ''AND'')
       \<and> (truthy (get_prop (the_value (get_prop body ''filterConfig'')) ''logic'') \<longrightarrow>
            (\<exists>s. get_prop (the_value (get_prop body ''filterConfig'')) ''logic'' = Some (JStr s) \<and> s \<noteq> []))"
proof -
  let ?logic = "get_prop (the_value (get_prop body ''filterConfig'')) ''logic''"
  from POST_Created [OF assms] obtain uid tid v where
    d: "valid_data (data_of tid uid body)"
    and r: "r = (filter_preset.extend (new_row (data_of tid uid body) new_id now)
              \<lparr> creator = find_creator st (createdBy (new_row (data_of tid uid body) new_id now)) \<rparr>)
            \<lparr>filterConfig := v\<rparr>"
    and st': "st' = st\<lparr>filter_presets := filter_presets st @ [new_row (data_of tid uid body) new_id now],
               queries := queries st @ [FindFirst (name_where tid uid (the_value (get_prop body ''name''))),
                                        Create (data_of tid uid body)]\<rparr>"
    by blast
  have last: "last (filter_presets st') = new_row (data_of tid uid body) new_id now"
    by (simp add: st')
  have logic: "data_filterLogic (data_of tid uid body) = or_else ?logic (JStr ''AND'')"
    by (simp add: data_of_def)
  from d have "is_string (or_else ?logic (JStr ''AND''))"
    by (simp add: valid_data_def logic)
  then have "truthy ?logic \<longrightarrow> (\<exists>s. ?logic = Some (JStr s) \<and> s \<noteq> [])"
    by (blast intro: truthy_string)
  then show ?thesis
    unfolding last r created_fields new_row_fields logic
    by (auto simp: or_else_falsy or_else_truthy_string simp del: truthy.simps)
qed

theorem create_filterLogic_witness:
  "POST (caller ''u1'' ''t1'') (example_body ''New'') ''p6'' 300 example_store
     = (Created (the (created_of (fst (POST (caller ''u1'' ''t1'') (example_body ''New'') ''p6'' 300 example_store)))),
        snd (POST (caller ''u1'' ''t1'') (example_body ''New'') ''p6'' 300 example_store))
   \<and> get_prop (the_value (get_prop (example_body ''New'') ''filterConfig'')) ''logic'' = Some (JStr ''OR'')
   \<and> ''OR'' \<noteq> []
   \<and> filterLogic (the (created_of (fst (POST (caller ''u1'' ''t1'') (example_body ''New'') ''p6'' 300 example_store)))) = ''OR''
   \<and> filterLogic (last (filter_presets (snd (POST (caller ''u1'' ''t1'') (example_body ''New'') ''p6'' 300 example_store)))) = ''OR''"
proof -
  have h: "POST (caller ''u1'' ''t1'') (example_body ''New'') ''p6'' 300 example_store
     = (Created (the (created_of (fst (POST (caller ''u1'' ''t1'') (example_body ''New'') ''p6'' 300 example_store)))),
        snd (POST (caller ''u1'' ''t1'') (example_body ''New'') ''p6'' 300 example_store))"
    by code_simp
  have l: "get_prop (the_value (get_prop (example_body ''New'') ''filterConfig'')) ''logic'' = Some (JStr ''OR'')"
    by code_simp
  have n: "''OR'' \<noteq> []" by simp
  from create_filterLogic [OF h] l n
  have "filterLogic (the (created_of (fst (POST (caller ''u1'' ''t1'') (example_body ''New'') ''p6'' 300 example_store)))) = ''OR''
    \<and> filterLogic (last (filter_presets (snd (POST (caller ''u1'' ''t1'') (example_body ''New'') ''p6'' 300 example_store)))) = ''OR''"
    by blast
  with h l n show ?thesis by blast
qed

text \<open>
  Claim C10. After a successful create each of \<open>description\<close>, \<open>icon\<close> and \<open>color\<close> is null
  (\<open>None\<close>) in the stored row and in the response whenever the submitted value is absent or
  falsy; the empty string in particular is stored as null.
\<close>

theorem create_optional_fields_null:
  assumes "POST ctx body new_id now st = (Created r, st')"
  shows "(\<not> truthy (get_prop body ''description'') \<longrightarrow>
            description r = None \<and> description (last (filter_presets st')) = None)
       \<and> (\<not> truthy (get_prop body ''icon'') \<longrightarrow>
            icon r = None \<and> icon (last (filter_presets st')) = None)
       \<and> (\<not> truthy (get_prop body ''color'') \<longrightarrow>
            color r = None \<and> color (last (filter_presets st')) = None)"
proof -
  from POST_Created [OF assms] obtain uid tid v where
    r: "r = (filter_preset.extend (new_row (data_of tid uid body) new_id now)
              \<lparr> creator = find_creator st (createdBy (new_row (data_of tid uid body) new_id now)) \<rparr>)
            \<lparr>filterConfig := v\<rparr>"
    and st': "st' = st\<lparr>filter_presets := filter_presets st @ [new_row (data_of tid uid body) new_id now],
               queries := queries st @ [FindFirst (name_where tid uid (the_value (get_prop body ''name''))),
                                        Create (data_of tid uid body)]\<rparr>"
    by blast
  have last: "last (filter_presets st') = new_row (data_of tid uid body) new_id now"
    by (simp add: st')
  have "data_description (data_of tid uid body) = or_else (get_prop body ''description'') JNull"
    "data_icon (data_of tid uid body) = or_else (get_prop body ''icon'') JNull"
    "data_color (data_of tid uid body) = or_else (get_prop body ''color'') JNull"
    by (simp_all add: data_of_def)
  then show ?thesis
    unfolding last r created_fields new_row_fields by (simp add: or_else_falsy)
qed

theorem create_optional_fields_null_witness:
  "POST (caller ''u1'' ''t1'') (example_body ''New'') ''p6'' 300 example_store
     = (Created (the (created_of (fst (POST (caller ''u1'' ''t1'') (example_body ''New'') ''p6'' 300 example_store)))),
        snd (POST (caller ''u1'' ''t1'') (example_body ''New'') ''p6'' 300 example_store))
   \<and> get_prop (example_body ''New'') ''description'' = Some (JStr [])
   \<and> get_prop (example_body ''New'') ''icon'' = None
   \<and> \<not> truthy (get_prop (example_body ''New'') ''description'')
   \<and> \<not> truthy (get_prop (example_body ''New'') ''icon'')
   \<and> description (the (created_of (fst (POST (caller ''u1'' ''t1'') (example_body ''New'') ''p6'' 300 example_store)))) = None
   \<and> description (last (filter_presets (snd (POST (caller ''u1'' ''t1'') (example_body ''New'') ''p6'' 300 example_store)))) = None
   \<and> icon (the (created_of (fst (POST (caller ''u1'' ''t1'') (example_body ''New'') ''p6'' 300 example_store)))) = None
   \<and> icon (last (filter_presets (snd (POST (caller ''u1'' ''t1'') (example_body ''New'') ''p6'' 300 example_store)))) = None"
proof -
  have h: "POST (caller ''u1'' ''t1'') (example_body ''New'') ''p6'' 300 example_store
     = (Created (the (created_of (fst (POST (caller ''u1'' ''t1'') (example_body ''New'') ''p6'' 300 example_store)))),
        snd (POST (caller ''u1'' ''t1'') (example_body ''New'') ''p6'' 300 example_store))"
    by code_simp
  have p: "get_prop (example_body ''New'') ''description'' = Some (JStr [])"
    "get_prop (example_body ''New'') ''icon'' = None"
    by code_simp+
  then have f: "\<not> truthy (get_prop (example_body ''New'') ''description'')"
    "\<not> truthy (get_prop (example_body ''New'') ''icon'')"
    by simp_all
  from create_optional_fields_null [OF h] f
  have "description (the (created_of (fst (POST (caller ''u1'' ''t1'') (example_body ''New'') ''p6'' 300 example_store)))) = None
    \<and> description (last (filter_presets (snd (POST (caller ''u1'' ''t1'') (example_body ''New'') ''p6'' 300 example_store)))) = None
    \<and> icon (the (created_of (fst (POST (caller ''u1'' ''t1'') (example_body ''New'') ''p6'' 300 example_store)))) = None
    \<and> icon (last (filter_presets (snd (POST (caller ''u1'' ''t1'') (example_body ''New'') ''p6'' 300 example_store)))) = None"
    by blast
  with h p f show ?thesis by blast
qed

end
